theory Spec2Isabelle
  imports Main "HOL-Library.Word" "HOL-Library.AList" "HOL-Library.Char_ord"
    "HOL-Library.List_Lexorder" "HOL-Library.Multiset"
begin

section \<open>The bookmark store of robuku (package bukudb)\<close>

text \<open>
  The store keeps its bookmarks in one SQLite table and caches the number of rows in the
  field \<open>len\<close>. Every method takes the store's mutex for its whole body, so the
  methods are modelled as sequential functions on the store's state; only \<open>GetAll\<close>
  starts goroutines, and their order is a parameter of the model.
\<close>

subsection \<open>Strings (package strings, as far as bukudb uses it)\<close>

text \<open>
  A Go string is a sequence of bytes, as \<^typ>\<open>string\<close> is. \<open>Split\<close> is
  \<open>strings.Split\<close> for a separator of one byte (the store only splits on the comma):
  a string with \<open>n\<close> separators gives \<open>n + 1\<close> pieces, so the empty string gives
  one empty piece.
\<close>

fun Split :: "string \<Rightarrow> char \<Rightarrow> string list" where
  "Split [] sep = [[]]"
| "Split (c # cs) sep =
     (if c = sep then [] # Split cs sep
      else (case Split cs sep of [] \<Rightarrow> [[c]] | w # ws \<Rightarrow> (c # w) # ws))"

fun Join :: "string list \<Rightarrow> string \<Rightarrow> string" where
  "Join [] sep = []"
| "Join [e] sep = e"
| "Join (e # e' # es) sep = e @ sep @ Join (e' # es) sep"

text \<open>
  What the store takes from the Go library and this theory does not define: the Unicode
  mapping \<open>strings.Map(unicode.ToLower, s)\<close>, which \<open>strings.ToLower\<close> applies to a
  string with a byte from 128 on, and the pattern-defeating quicksort that \<open>sort.Slice\<close>
  runs on a slice of more than 12 elements, here with the comparison of \<open>AddTags\<close>.
\<close>

record go_runtime =
  unicodeToLower :: "string \<Rightarrow> string"
  pdqsort :: "string list \<Rightarrow> string list"

text \<open>
  \<open>strings.ToLower\<close>: a string of ASCII bytes has its letters A to Z moved to a to z,
  byte by byte; any other string goes through the Unicode mapping.
\<close>

definition toLowerByte :: "char \<Rightarrow> char" where
  "toLowerByte c =
     (if (65::nat) \<le> of_char c \<and> of_char c \<le> (90::nat)
      then char_of (of_char c + (32::nat)) else c)"

definition ToLower :: "go_runtime \<Rightarrow> string \<Rightarrow> string" where
  "ToLower rt s =
     (if \<forall>c\<in>set s. (of_char c :: nat) < 128 then map toLowerByte s
      else unicodeToLower rt s)"

text \<open>The helper \<open>filter\<close> at the end of bukudb.go: the loop over the slice.\<close>

fun filter_slice :: "string list \<Rightarrow> (string \<Rightarrow> bool) \<Rightarrow> string list" where
  "filter_slice [] predicate = []"
| "filter_slice (v # vs) predicate =
     (if predicate v then v # filter_slice vs predicate else filter_slice vs predicate)"

text \<open>
  \<open>sort.Slice\<close> with the comparison \<open>ToLower a < ToLower b\<close>. A slice of at most 12
  elements is sorted by insertion: each element moves left past the elements that are
  greater, so elements with equal keys keep their order, and the list with that property
  is \<open>sort_key\<close>. A longer slice goes to the quicksort of the library.
\<close>

definition sortTags :: "go_runtime \<Rightarrow> string list \<Rightarrow> string list" where
  "sortTags rt ts =
     (if length ts \<le> 12 then sort_key (ToLower rt) ts else pdqsort rt ts)"

subsection \<open>The table \<open>bookmarks\<close>\<close>

text \<open>
  The schema, from the comment at the head of bukudb.go:
  \<^verbatim>\<open>
  bookmarks (
      id INTEGER PRIMARY KEY,
      URL TEXT NOT NULL UNIQUE,
      metadata TEXT DEFAULT '',
      tags TEXT DEFAULT ',',
      desc TEXT DEFAULT '',
      flags INTEGER DEFAULT 0
  );
  \<close>
  A table is the list of its rows. The statements below are the ones the store sends;
  each one fails only where a constraint of the schema forbids it (a storage engine that
  fails for reasons of its own is outside this model).
\<close>

record row =
  rid :: int
  rurl :: string
  rmetadata :: string
  rtags :: string
  rdesc :: string
  rflags :: int

type_synonym table = "row list"

datatype sql_error = ConstraintFailed | NoRows

text \<open>\<^verbatim>\<open>INSERT INTO bookmarks (id, URL, metadata, tags, desc, flags) VALUES (?, ?, ?, ?, ?, ?)\<close>\<close>

definition sql_insert :: "row \<Rightarrow> table \<Rightarrow> sql_error + table" where
  "sql_insert r t =
     (if rid r \<in> set (map rid t) \<or> rurl r \<in> set (map rurl t)
      then Inl ConstraintFailed else Inr (t @ [r]))"

text \<open>\<^verbatim>\<open>DELETE FROM bookmarks WHERE id = ?\<close>\<close>

definition sql_delete :: "int \<Rightarrow> table \<Rightarrow> table" where
  "sql_delete i t = filter (\<lambda>r. rid r \<noteq> i) t"

text \<open>\<^verbatim>\<open>UPDATE bookmarks SET id = ? WHERE id = ?\<close>: no row with the old id changes nothing.\<close>

definition sql_update_id :: "int \<Rightarrow> int \<Rightarrow> table \<Rightarrow> sql_error + table" where
  "sql_update_id new old t =
     (if old \<notin> set (map rid t) then Inr t
      else if new \<noteq> old \<and> new \<in> set (map rid t) then Inl ConstraintFailed
      else Inr (map (\<lambda>r. if rid r = old then r\<lparr>rid := new\<rparr> else r) t))"

text \<open>\<^verbatim>\<open>UPDATE bookmarks SET <field> = ? WHERE id = ?\<close>, for the four columns the store names.\<close>

datatype field = F_metadata | F_URL | F_desc | F_tags

fun set_field :: "field \<Rightarrow> string \<Rightarrow> row \<Rightarrow> row" where
  "set_field F_metadata v r = r\<lparr>rmetadata := v\<rparr>"
| "set_field F_URL v r = r\<lparr>rurl := v\<rparr>"
| "set_field F_desc v r = r\<lparr>rdesc := v\<rparr>"
| "set_field F_tags v r = r\<lparr>rtags := v\<rparr>"

definition sql_update_field :: "field \<Rightarrow> string \<Rightarrow> int \<Rightarrow> table \<Rightarrow> sql_error + table" where
  "sql_update_field f v i t =
     (if f = F_URL \<and> i \<in> set (map rid t) \<and> v \<in> set (map rurl (filter (\<lambda>r. rid r \<noteq> i) t))
      then Inl ConstraintFailed
      else Inr (map (\<lambda>r. if rid r = i then set_field f v r else r) t))"

text \<open>\<^verbatim>\<open>SELECT id, URL, metadata, tags, desc FROM bookmarks WHERE id = ?\<close>, read by QueryRow.\<close>

definition sql_select_id :: "int \<Rightarrow> table \<Rightarrow> sql_error + row" where
  "sql_select_id i t = (case find (\<lambda>r. rid r = i) t of None \<Rightarrow> Inl NoRows | Some r \<Rightarrow> Inr r)"

text \<open>
  \<^verbatim>\<open>SELECT id, URL, metadata, tags, desc, flags FROM bookmarks WHERE id BETWEEN ? AND ?\<close>.
  The query has no ORDER BY; the rows come in the order of the table here.
\<close>

definition sql_select_between :: "int \<Rightarrow> int \<Rightarrow> table \<Rightarrow> row list" where
  "sql_select_between lo hi t = filter (\<lambda>r. lo \<le> rid r \<and> rid r \<le> hi) t"

text \<open>\<^verbatim>\<open>SELECT MAX(id) FROM bookmarks;\<close>: NULL on the empty table, which Scan cannot store in an int.\<close>

definition sql_select_max_id :: "table \<Rightarrow> sql_error + int" where
  "sql_select_max_id t =
     (case t of [] \<Rightarrow> Inl NoRows | r # rs \<Rightarrow> Inr (fold (\<lambda>r m. max (rid r) m) rs (rid r)))"

subsection \<open>The store\<close>

definition MaxBookmarks :: int where
  "MaxBookmarks = 1000"

record Bookmark =
  ID :: "16 word"
  URL :: string
  Title :: string
  Tags :: "string list"
  Comment :: string

text \<open>
  The struct BukuDB without its path and its mutex: the connection stands for the table
  it reads and writes, and \<open>len\<close> is the cached count (a Go int, unbounded here: the
  store keeps it at most \<open>MaxBookmarks\<close>).
\<close>

record BukuDB =
  conn :: table
  len :: int

text \<open>
  The errors are values of \<open>fmt.Errorf\<close>; one constructor for each message:
  "... out of range (1-%d)", "maximum number of bookmarks (%d) reached", and the
  wrapped failures of the storage engine.
\<close>

datatype error =
    OutOfRange
  | CapacityExceeded
  | FailedToGetLength
  | FailedToScan
  | FailedToInsert
  | FailedToDelete
  | FailedToUpdateId
  | FailedToUpdateField
  | FailedToProcessRange

definition getMaxBookmarkID :: "table \<Rightarrow> error + int" where
  "getMaxBookmarkID t =
     (case sql_select_max_id t of
        Inl e \<Rightarrow> Inl FailedToGetLength
      | Inr maxID \<Rightarrow> Inr (if maxID > MaxBookmarks then MaxBookmarks else maxID))"

definition NewBukuDB :: "table \<Rightarrow> error + BukuDB" where
  "NewBukuDB t =
     (case getMaxBookmarkID t of
        Inl e \<Rightarrow> Inl FailedToGetLength
      | Inr l \<Rightarrow> Inr \<lparr>conn = t, len = l\<rparr>)"

definition Len :: "BukuDB \<Rightarrow> int" where
  "Len db = len db"

text \<open>The tags of a row as \<open>Get\<close> reads them.\<close>

definition decodeTagsGet :: "string \<Rightarrow> string list" where
  "decodeTagsGet tagsString =
     (if tagsString \<noteq> '','' then filter_slice (Split tagsString CHR '','') (\<lambda>t. t \<noteq> [])
      else [])"

definition Get :: "16 word \<Rightarrow> BukuDB \<Rightarrow> error + Bookmark" where
  "Get bid db =
     (if bid < 1 \<or> uint bid > len db then Inl OutOfRange
      else (case sql_select_id (uint bid) (conn db) of
              Inl e \<Rightarrow> Inl FailedToScan
            | Inr r \<Rightarrow> Inr \<lparr>ID = word_of_int (rid r), URL = rurl r, Title = rmetadata r,
                           Tags = decodeTagsGet (rtags r), Comment = rdesc r\<rparr>))"

text \<open>
  The methods that write return the error (or none) and leave the store as the
  statements they ran left it.
\<close>

definition Add :: "Bookmark \<Rightarrow> BukuDB \<Rightarrow> error option \<times> BukuDB" where
  "Add bookmark db =
     (let newID = (word_of_int (len db + 1) :: 16 word) in
      if newID > word_of_int MaxBookmarks then (Some CapacityExceeded, db)
      else (case sql_insert \<lparr>rid = uint newID, rurl = URL bookmark, rmetadata = Title bookmark,
                              rtags = Join (Tags bookmark) '','', rdesc = Comment bookmark,
                              rflags = 0\<rparr> (conn db) of
              Inl e \<Rightarrow> (Some FailedToInsert, db)
            | Inr t \<Rightarrow> (None, db\<lparr>conn := t, len := uint newID\<rparr>)))"

definition updateField :: "16 word \<Rightarrow> field \<Rightarrow> string \<Rightarrow> BukuDB \<Rightarrow> error option \<times> BukuDB" where
  "updateField bid f v db =
     (if bid < 1 \<or> uint bid > len db then (Some OutOfRange, db)
      else (case sql_update_field f v (uint bid) (conn db) of
              Inl e \<Rightarrow> (Some FailedToUpdateField, db)
            | Inr t \<Rightarrow> (None, db\<lparr>conn := t\<rparr>)))"

definition UpdateTitle :: "16 word \<Rightarrow> string \<Rightarrow> BukuDB \<Rightarrow> error option \<times> BukuDB" where
  "UpdateTitle bid title db = updateField bid F_metadata title db"

definition UpdateURL :: "16 word \<Rightarrow> string \<Rightarrow> BukuDB \<Rightarrow> error option \<times> BukuDB" where
  "UpdateURL bid url db = updateField bid F_URL url db"

definition UpdateComment :: "16 word \<Rightarrow> string \<Rightarrow> BukuDB \<Rightarrow> error option \<times> BukuDB" where
  "UpdateComment bid comment db = updateField bid F_desc comment db"

definition AddTags ::
    "go_runtime \<Rightarrow> 16 word \<Rightarrow> string list \<Rightarrow> BukuDB \<Rightarrow> error option \<times> BukuDB" where
  "AddTags rt bid tags db =
     (case Get bid db of
        Inl err \<Rightarrow> (Some err, db)
      | Inr b \<Rightarrow>
          (let tags' = filter_slice tags (\<lambda>t. t \<notin> set (Tags b));
               bTags = sortTags rt (Tags b @ tags');
               tagsStr = '','' @ Join bTags '','' @ '',''
           in updateField bid F_tags tagsStr db))"

definition RemoveTags :: "16 word \<Rightarrow> string list \<Rightarrow> BukuDB \<Rightarrow> error option \<times> BukuDB" where
  "RemoveTags bid tags db =
     (case Get bid db of
        Inl err \<Rightarrow> (Some err, db)
      | Inr b \<Rightarrow>
          (let bTags = filter_slice (Tags b) (\<lambda>t. t \<notin> set tags);
               tagsStr = '','' @ Join bTags '','' @ '',''
           in updateField bid F_tags tagsStr db))"

definition ClearTags :: "16 word \<Rightarrow> BukuDB \<Rightarrow> error option \<times> BukuDB" where
  "ClearTags bid db = updateField bid F_tags '','' db"

text \<open>
  The loop of \<open>Remove\<close>: for \<open>i\<close> from \<open>index + 1\<close> while \<open>i < db.len\<close>, the row
  with id \<open>i + 1\<close> gets the id \<open>i\<close>; the first statement that fails ends the loop and
  keeps what the earlier ones wrote.
\<close>

function renumber :: "int \<Rightarrow> int \<Rightarrow> table \<Rightarrow> error option \<times> table" where
  "renumber i n t =
     (if i < n
      then (case sql_update_id i (i + 1) t of
              Inl e \<Rightarrow> (Some FailedToUpdateId, t)
            | Inr t' \<Rightarrow> renumber (i + 1) n t')
      else (None, t))"
  by pat_completeness auto
termination
  by (relation "measure (\<lambda>(i, n, t). nat (n - i))") auto

definition Remove :: "16 word \<Rightarrow> BukuDB \<Rightarrow> error option \<times> BukuDB" where
  "Remove bid db =
     (let index = uint (bid - 1) in
      if bid < 1 \<or> index \<ge> len db then (Some OutOfRange, db)
      else (let t = sql_delete (uint bid) (conn db) in
            case renumber (index + 1) (len db) t of
              (Some e, t') \<Rightarrow> (Some e, db\<lparr>conn := t'\<rparr>)
            | (None, t') \<Rightarrow> (None, db\<lparr>conn := t', len := len db - 1\<rparr>)))"

subsection \<open>Loading all bookmarks\<close>

text \<open>The tags of a row as \<open>processBookmarkRange\<close> reads them: the first and the last
  byte go, whatever they are, and the rest is split.\<close>

definition decodeTagsRange :: "string \<Rightarrow> string list" where
  "decodeTagsRange tagsString =
     (if length tagsString \<ge> 2
      then Split (take (length tagsString - 2) (drop 1 tagsString)) CHR '',''
      else [])"

definition scanRow :: "row \<Rightarrow> Bookmark" where
  "scanRow r = \<lparr>ID = word_of_int (rid r), URL = rurl r, Title = rmetadata r,
                Tags = decodeTagsRange (rtags r), Comment = rdesc r\<rparr>"

text \<open>
  The shared \<open>map[uint16]Bookmark\<close> is an association list with one entry for a key.
  Scan refuses an id that does not fit a uint16.
\<close>

type_synonym bookmarksMap = "(16 word \<times> Bookmark) list"

fun scanRows :: "row list \<Rightarrow> bookmarksMap \<Rightarrow> error option \<times> bookmarksMap" where
  "scanRows [] m = (None, m)"
| "scanRows (r # rs) m =
     (if rid r < 0 \<or> rid r > 65535 then (Some FailedToScan, m)
      else scanRows rs (AList.update (word_of_int (rid r)) (scanRow r) m))"

definition processBookmarkRange ::
    "table \<Rightarrow> int \<Rightarrow> int \<Rightarrow> bookmarksMap \<Rightarrow> error option \<times> bookmarksMap" where
  "processBookmarkRange t start end m = scanRows (sql_select_between start end t) m"

text \<open>Go's division of ints truncates towards zero.\<close>

definition go_div :: "int \<Rightarrow> int \<Rightarrow> int" where
  "go_div a b = sgn a * sgn b * (\<bar>a\<bar> div \<bar>b\<bar>)"

definition entriesPerWorker :: "int \<Rightarrow> int \<Rightarrow> int" where
  "entriesPerWorker maxID numWorkers = go_div (maxID + numWorkers - 1) numWorkers"

definition workerStart :: "int \<Rightarrow> int \<Rightarrow> int \<Rightarrow> int" where
  "workerStart maxID numWorkers i = i * entriesPerWorker maxID numWorkers + 1"

definition workerEnd :: "int \<Rightarrow> int \<Rightarrow> int \<Rightarrow> int" where
  "workerEnd maxID numWorkers i =
     (let end = (i + 1) * entriesPerWorker maxID numWorkers
      in if end > maxID then maxID else end)"

text \<open>
  The goroutines of \<open>loadBookmarks\<close>, one for each \<open>i\<close> from 0 below \<open>numWorkers\<close>.
  \<open>sched\<close> lists the workers in the order in which they run; every insertion into the
  map is under the loader's own mutex. A worker that fails sets \<open>processErr\<close> and the
  others go on.
\<close>

fun runWorkers ::
    "table \<Rightarrow> int \<Rightarrow> int \<Rightarrow> int list \<Rightarrow> error option \<times> bookmarksMap \<Rightarrow> error option \<times> bookmarksMap"
  where
  "runWorkers t maxID numWorkers [] st = st"
| "runWorkers t maxID numWorkers (i # sched) (processErr, m) =
     (case processBookmarkRange t (workerStart maxID numWorkers i)
             (workerEnd maxID numWorkers i) m of
        (Some e, m') \<Rightarrow> runWorkers t maxID numWorkers sched (Some FailedToProcessRange, m')
      | (None, m') \<Rightarrow> runWorkers t maxID numWorkers sched (processErr, m'))"

definition loadBookmarks :: "table \<Rightarrow> int \<Rightarrow> int \<Rightarrow> int list \<Rightarrow> error + Bookmark list" where
  "loadBookmarks t maxID numWorkers sched =
     (case runWorkers t maxID numWorkers sched (None, []) of
        (Some processErr, m) \<Rightarrow> Inl processErr
      | (None, m) \<Rightarrow> Inr (sort_key ID (map snd m)))"

text \<open>\<open>numCPU\<close> is \<open>runtime.NumCPU()\<close>, at least 1.\<close>

definition GetAll :: "int \<Rightarrow> int list \<Rightarrow> BukuDB \<Rightarrow> error + Bookmark list" where
  "GetAll numCPU sched db = loadBookmarks (conn db) (len db) numCPU sched"

subsection \<open>Sequences of calls, and the notions the properties are stated with\<close>

datatype call = Call_Add Bookmark | Call_Remove "16 word"

fun step :: "call \<Rightarrow> BukuDB \<Rightarrow> error option \<times> BukuDB" where
  "step (Call_Add b) db = Add b db"
| "step (Call_Remove i) db = Remove i db"

text \<open>The store after a sequence of calls; a call that fails leaves what it left.\<close>

fun run :: "call list \<Rightarrow> BukuDB \<Rightarrow> BukuDB" where
  "run [] db = db"
| "run (c # cs) db = run cs (snd (step c db))"

text \<open>
  The ids of the table are the range from 1 to the cached count, each once (the primary
  key), and the next id fits the 16 bits of an id. The store keeps its count far below
  that: \<open>NewBukuDB\<close> caps it at \<open>MaxBookmarks\<close> and \<open>Add\<close> stops there.
\<close>

definition store_inv :: "BukuDB \<Rightarrow> bool" where
  "store_inv db \<longleftrightarrow>
     distinct (map rid (conn db)) \<and> set (map rid (conn db)) = {1..len db} \<and>
     0 \<le> len db \<and> len db < 65535"

text \<open>The row with a given id, if the table has one.\<close>

definition row_at :: "table \<Rightarrow> int \<Rightarrow> row option" where
  "row_at t i = find (\<lambda>r. rid r = i) t"

text \<open>The ids above \<open>i\<close> up to \<open>n\<close> move down by one.\<close>

definition shift_ids :: "int \<Rightarrow> int \<Rightarrow> table \<Rightarrow> table" where
  "shift_ids i n t = map (\<lambda>r. if i < rid r \<and> rid r \<le> n then r\<lparr>rid := rid r - 1\<rparr> else r) t"

text \<open>
  What every state of the loader's map satisfies: one entry for a key, and the entry under
  a key is the scan of a row of the table with that id.
\<close>

definition map_agrees :: "table \<Rightarrow> bookmarksMap \<Rightarrow> bool" where
  "map_agrees t m \<longleftrightarrow>
     distinct (map fst m) \<and>
     (\<forall>k b. map_of m k = Some b \<longrightarrow> (\<exists>r\<in>set t. rid r = uint k \<and> b = scanRow r))"

text \<open>The ids that worker \<open>i\<close> reads.\<close>

definition workerIds :: "table \<Rightarrow> int \<Rightarrow> int \<Rightarrow> int \<Rightarrow> int set" where
  "workerIds t maxID numWorkers i =
     rid ` set (sql_select_between (workerStart maxID numWorkers i) (workerEnd maxID numWorkers i) t)"

text \<open>
  What the properties ask of the library's quicksort: it returns the elements it was
  given, in ascending order of the key.
\<close>

definition runtime_ok :: "go_runtime \<Rightarrow> bool" where
  "runtime_ok rt \<longleftrightarrow>
     (\<forall>ts. mset (pdqsort rt ts) = mset ts \<and> sorted (map (ToLower rt) (pdqsort rt ts)))"

text \<open>The tags that are not empty and hold no comma: the tags the column can hold.\<close>

definition clean_tags :: "string list \<Rightarrow> bool" where
  "clean_tags ts \<longleftrightarrow> (\<forall>t\<in>set ts. t \<noteq> [] \<and> CHR '','' \<notin> set t)"

subsection \<open>Stores for the scenarios\<close>

text \<open>The store of the delete-then-reload scenario: ids 1 to 4 with the urls a, b, c, d.\<close>

definition abcd_table :: table where
  "abcd_table =
     [\<lparr>rid = 1, rurl = ''a'', rmetadata = ''A'', rtags = '',x,y,'', rdesc = ''p'', rflags = 0\<rparr>,
      \<lparr>rid = 2, rurl = ''b'', rmetadata = ''B'', rtags = '',x,'', rdesc = [], rflags = 0\<rparr>,
      \<lparr>rid = 3, rurl = ''c'', rmetadata = ''C'', rtags = '','', rdesc = [], rflags = 0\<rparr>,
      \<lparr>rid = 4, rurl = ''d'', rmetadata = [], rtags = '','', rdesc = [], rflags = 0\<rparr>]"

definition abcd_db :: BukuDB where
  "abcd_db = \<lparr>conn = abcd_table, len = 4\<rparr>"

text \<open>A store at its capacity: the ids 1 to 1000, each with a url of its own.\<close>

definition full_db :: BukuDB where
  "full_db =
     \<lparr>conn = map (\<lambda>i. \<lparr>rid = i, rurl = replicate (nat i) CHR ''u'', rmetadata = [],
                         rtags = '','', rdesc = [], rflags = 0\<rparr>) [1..1000],
      len = 1000\<rparr>"

definition bookmark_e :: Bookmark where
  "bookmark_e = \<lparr>ID = 0, URL = ''e'', Title = ''E'', Tags = [''new'', ''t2''], Comment = []\<rparr>"

text \<open>Seven bookmarks for three workers: a count that the workers do not divide.\<close>

definition seven_db :: BukuDB where
  "seven_db =
     \<lparr>conn = map (\<lambda>i. \<lparr>rid = i, rurl = replicate (nat i) CHR ''u'', rmetadata = [],
                         rtags = '','', rdesc = [], rflags = 0\<rparr>) [3, 1, 2, 7, 5, 6, 4],
      len = 7\<rparr>"

text \<open>Bookmarks for the scenarios: one with an empty tag, as the tags input "a," gives it,
  and one with the url of a row of the store.\<close>

definition bookmark_empty_tag :: Bookmark where
  "bookmark_empty_tag = \<lparr>ID = 0, URL = ''e'', Title = ''E'', Tags = ['''', ''a''], Comment = []\<rparr>"

definition bookmark_dup :: Bookmark where
  "bookmark_dup = \<lparr>ID = 0, URL = ''a'', Title = ''E'', Tags = [], Comment = []\<rparr>"

text \<open>The store of the scenario after the only tag of bookmark 2 is removed.\<close>

definition untagged_db :: BukuDB where
  "untagged_db = snd (RemoveTags 2 [''x''] abcd_db)"

text \<open>
  A runtime for the scenarios. Their tags are short lists of ASCII strings, for which
  neither field is consulted.
\<close>

definition ascii_runtime :: go_runtime where
  "ascii_runtime = \<lparr>unicodeToLower = map toLowerByte, pdqsort = sort_key (map toLowerByte)\<rparr>"

section \<open>Properties\<close>

subsection \<open>Ids as 16-bit words\<close>

lemma uint16_of_int: "0 \<le> k \<Longrightarrow> k < 65536 \<Longrightarrow> uint (word_of_int k :: 16 word) = k"
  by (simp add: uint_word_of_int_eq take_bit_int_eq_self)

lemma uint16_bound: "uint (w :: 16 word) < 65536"
  using uint_bounded [of w] by simp

lemma word16_less_1: "(w :: 16 word) < 1 \<longleftrightarrow> uint w = 0"
  by (simp add: word_less_1 uint_0_iff)

subsection \<open>The loop of Remove\<close>

lemma renumber_closed:
  "distinct (map rid t) \<Longrightarrow> i \<notin> set (map rid t) \<Longrightarrow> renumber i n t = (None, shift_ids i n t)"
proof (induction i n t rule: renumber.induct)
  case (1 i n t)
  show ?case
  proof (cases "i < n")
    case False
    then have "shift_ids i n t = t"
      unfolding shift_ids_def by (intro map_idI) auto
    with False show ?thesis by simp
  next
    case True
    define t' where "t' = map (\<lambda>r. if rid r = i + 1 then r\<lparr>rid := i\<rparr> else r) t"
    have upd: "sql_update_id i (i + 1) t = Inr t'"
    proof (cases "i + 1 \<in> set (map rid t)")
      case True
      with "1.prems" show ?thesis by (simp add: sql_update_id_def t'_def)
    next
      case False
      then have "t' = t" unfolding t'_def by (intro map_idI) force
      with False show ?thesis by (simp add: sql_update_id_def)
    qed
    have ids': "map rid t' = map (\<lambda>k. if k = i + 1 then i else k) (map rid t)"
      by (simp add: t'_def comp_def if_distrib cong: if_cong)
    have inj: "inj_on (\<lambda>k. if k = i + 1 then i else k) (set (map rid t))"
      using "1.prems"(2) by (auto simp: inj_on_def split: if_splits)
    have d': "distinct (map rid t')"
      unfolding ids' using "1.prems"(1) inj
        distinct_map [of "\<lambda>k. if k = i + 1 then i else k" "map rid t"] by blast
    have n': "i + 1 \<notin> set (map rid t')"
      unfolding ids' using "1.prems"(2) by (auto split: if_splits)
    have sh: "shift_ids (i + 1) n t' = shift_ids i n t"
      using True unfolding shift_ids_def t'_def by (auto simp: comp_def)
    from "1.IH" [OF True upd d' n'] sh upd True show ?thesis
      by (subst renumber.simps) simp
  qed
qed

lemma find_map_fun: "find P (map f xs) = map_option f (find (\<lambda>x. P (f x)) xs)"
  by (induction xs) auto

lemma find_SomeD: "find P xs = Some x \<Longrightarrow> P x \<and> x \<in> set xs"
  by (induction xs) (auto split: if_splits)

lemma row_at_None: "row_at t j = None \<longleftrightarrow> j \<notin> set (map rid t)"
  by (auto simp: row_at_def find_None_iff)

lemma row_at_Some: "row_at t j = Some r \<Longrightarrow> r \<in> set t \<and> rid r = j"
  unfolding row_at_def by (auto dest: find_SomeD)

lemma row_at_delete: "row_at (sql_delete i t) j = (if j = i then None else row_at t j)"
  unfolding row_at_def sql_delete_def by (induction t) auto

lemma row_at_shift:
  assumes "i \<notin> set (map rid t)"
  shows "row_at (shift_ids i n t) j =
           (if i \<le> j \<and> j < n then map_option (\<lambda>r. r\<lparr>rid := j\<rparr>) (row_at t (j + 1))
            else if i \<le> j \<and> j = n then None
            else row_at t j)"
proof -
  let ?g = "\<lambda>r. if i < rid r \<and> rid r \<le> n then r\<lparr>rid := rid r - 1\<rparr> else r"
  have eq: "row_at (shift_ids i n t) j = map_option ?g (find (\<lambda>r. rid (?g r) = j) t)"
    unfolding row_at_def shift_ids_def by (rule find_map_fun)
  consider (a) "i \<le> j \<and> j < n" | (b) "i \<le> j \<and> j = n" | (c) "\<not> (i \<le> j \<and> j \<le> n)" by linarith
  then show ?thesis
  proof cases
    case a
    have "find (\<lambda>r. rid (?g r) = j) t = find (\<lambda>r. rid r = j + 1) t"
      using assms a by (intro find_cong) auto
    moreover have "map_option ?g (find (\<lambda>r. rid r = j + 1) t) =
        map_option (\<lambda>r. r\<lparr>rid := j\<rparr>) (find (\<lambda>r. rid r = j + 1) t)"
    proof (cases "find (\<lambda>r. rid r = j + 1) t")
      case (Some r)
      then have "rid r = j + 1" by (auto dest: find_SomeD)
      with a Some show ?thesis by simp
    qed simp
    ultimately show ?thesis using a eq by (simp add: row_at_def)
  next
    case b
    have "find (\<lambda>r. rid (?g r) = j) t = None"
      using assms b by (auto simp: find_None_iff)
    then show ?thesis using b eq by simp
  next
    case c
    have "find (\<lambda>r. rid (?g r) = j) t = find (\<lambda>r. rid r = j) t"
      using c by (intro find_cong) auto
    moreover have "map_option ?g (find (\<lambda>r. rid r = j) t) = find (\<lambda>r. rid r = j) t"
    proof (cases "find (\<lambda>r. rid r = j) t")
      case (Some r)
      then have "rid r = j" by (auto dest: find_SomeD)
      with c Some show ?thesis by auto
    qed simp
    ultimately show ?thesis using c eq by (auto simp: row_at_def)
  qed
qed

lemma ids_shift_delete:
  assumes "distinct (map rid t)" "set (map rid t) = {1..n}" "1 \<le> i" "i \<le> n"
  shows "distinct (map rid (shift_ids i n (sql_delete i t))) \<and>
         set (map rid (shift_ids i n (sql_delete i t))) = {1..n - 1}"
proof -
  define d where "d = sql_delete i t"
  define f where "f = (\<lambda>k::int. if i < k \<and> k \<le> n then k - 1 else k)"
  have dd: "distinct (map rid d)" using assms(1) by (simp add: d_def sql_delete_def distinct_map_filter)
  have sd: "set (map rid d) = {1..n} - {i}" using assms(2) by (auto simp: d_def sql_delete_def)
  have ids: "map rid (shift_ids i n d) = map f (map rid d)"
    by (simp add: shift_ids_def f_def comp_def if_distrib cong: if_cong)
  have inj: "inj_on f (set (map rid d))"
    unfolding sd f_def inj_on_def by (simp split: if_splits)
  have 1: "distinct (map rid (shift_ids i n d))"
    unfolding ids using dd inj distinct_map [of f "map rid d"] by blast
  have img: "f ` ({1..n} - {i}) = {1..n - 1}"
  proof (intro set_eqI iffI)
    fix k assume "k \<in> f ` ({1..n} - {i})"
    then obtain m where m: "m \<in> {1..n} - {i}" "k = f m" by blast
    then show "k \<in> {1..n - 1}" using assms(3,4) unfolding f_def by (simp split: if_splits)
  next
    fix k assume k: "k \<in> {1..n - 1}"
    show "k \<in> f ` ({1..n} - {i})"
    proof (cases "k < i")
      case True
      then have "f k = k" "k \<in> {1..n} - {i}" using k by (simp_all add: f_def)
      then show ?thesis by (metis imageI)
    next
      case False
      then have "f (k + 1) = k" "k + 1 \<in> {1..n} - {i}" using k by (simp_all add: f_def)
      then show ?thesis by (metis imageI)
    qed
  qed
  have "set (map rid (shift_ids i n d)) = f ` set (map rid d)"
    unfolding ids by (rule set_map)
  with sd img have 2: "set (map rid (shift_ids i n d)) = {1..n - 1}" by simp
  from 1 2 show ?thesis unfolding d_def by blast
qed

lemma Remove_closed:
  assumes "distinct (map rid (conn db))" "bid \<noteq> 0" "uint bid \<le> len db"
  shows "Remove bid db =
     (None, db\<lparr>conn := shift_ids (uint bid) (len db) (sql_delete (uint bid) (conn db)),
               len := len db - 1\<rparr>)"
proof -
  have pos: "1 \<le> uint bid" using assms(2) uint_ge_0 [of bid] uint_0_iff [of bid] by linarith
  have idx: "uint (bid - 1) = uint bid - 1"
  proof -
    have "1 \<le> bid" using pos by (simp add: word_le_def)
    then show ?thesis by (simp add: uint_minus_simple_alt)
  qed
  have d: "distinct (map rid (sql_delete (uint bid) (conn db)))"
    using assms(1) by (simp add: sql_delete_def distinct_map_filter)
  have n: "uint bid \<notin> set (map rid (sql_delete (uint bid) (conn db)))"
    by (auto simp: sql_delete_def)
  have lt: "\<not> bid < 1" using assms(2) by (simp add: word_less_1)
  have "renumber (uint bid) (len db) (sql_delete (uint bid) (conn db)) =
      (None, shift_ids (uint bid) (len db) (sql_delete (uint bid) (conn db)))"
    by (rule renumber_closed [OF d n])
  then show ?thesis
    using assms(3) lt by (simp add: Remove_def idx Let_def)
qed

subsection \<open>Add, Remove and the invariant\<close>

lemma word16_gt_1000: "0 \<le> k \<Longrightarrow> k < 65536 \<Longrightarrow> (word_of_int k :: 16 word) > word_of_int MaxBookmarks \<longleftrightarrow> k > MaxBookmarks"
  by (simp add: word_less_def uint16_of_int MaxBookmarks_def uint_word_of_int_eq take_bit_int_eq_self)

lemma Add_unfold:
  assumes "0 \<le> len db" "len db < 65535"
  shows "Add b db =
    (if len db + 1 > MaxBookmarks then (Some CapacityExceeded, db)
     else (case sql_insert \<lparr>rid = len db + 1, rurl = URL b, rmetadata = Title b,
                            rtags = Join (Tags b) '','', rdesc = Comment b, rflags = 0\<rparr> (conn db) of
             Inl e \<Rightarrow> (Some FailedToInsert, db)
           | Inr t \<Rightarrow> (None, db\<lparr>conn := t, len := len db + 1\<rparr>)))"
proof -
  have u: "uint (word_of_int (len db + 1) :: 16 word) = len db + 1"
    using assms by (intro uint16_of_int) auto
  have g: "(word_of_int (len db + 1) :: 16 word) > word_of_int MaxBookmarks \<longleftrightarrow> len db + 1 > MaxBookmarks"
    using assms by (intro word16_gt_1000) auto
  show ?thesis
    unfolding Add_def Let_def u g by (rule refl)
qed

lemma Add_inv: "store_inv db \<Longrightarrow> store_inv (snd (Add b db))"
proof -
  assume inv: "store_inv db"
  then have r: "0 \<le> len db" "len db < 65535" by (auto simp: store_inv_def)
  show ?thesis
    unfolding Add_unfold [OF r] using inv
    by (auto simp: store_inv_def sql_insert_def MaxBookmarks_def split: sum.splits if_splits)
qed

lemma Remove_inv: "store_inv db \<Longrightarrow> store_inv (snd (Remove bid db))"
proof (cases "bid \<noteq> 0 \<and> uint bid \<le> len db")
  case False
  assume inv: "store_inv db"
  have "Remove bid db = (Some OutOfRange, db)"
  proof (cases "bid = 0")
    case True
    then show ?thesis by (simp add: Remove_def)
  next
    case nz: False
    then have "1 \<le> bid" by (simp add: word_le_def) (metis uint_0_iff uint_ge_0 less_le zless_imp_add1_zle zero_less_one add_0 add.commute) 
    then have "uint (bid - 1) = uint bid - 1" by (simp add: uint_minus_simple_alt)
    with False nz show ?thesis by (simp add: Remove_def Let_def)
  qed
  with inv show ?thesis by simp
next
  case True
  assume inv: "store_inv db"
  then have d: "distinct (map rid (conn db))" and s: "set (map rid (conn db)) = {1..len db}"
    by (auto simp: store_inv_def)
  have pos: "1 \<le> uint bid" using True uint_ge_0 [of bid] uint_0_iff [of bid] by linarith
  from True have c: "Remove bid db =
     (None, db\<lparr>conn := shift_ids (uint bid) (len db) (sql_delete (uint bid) (conn db)),
               len := len db - 1\<rparr>)"
    by (intro Remove_closed [OF d]) auto
  from ids_shift_delete [OF d s pos] True inv pos show ?thesis
    unfolding c by (simp add: store_inv_def)
qed

lemma run_inv: "store_inv db \<Longrightarrow> store_inv (run cs db)"
proof (induction cs arbitrary: db)
  case (Cons c cs)
  have "store_inv (snd (step c db))"
    using Cons.prems by (cases c) (simp_all add: Add_inv Remove_inv)
  then show ?case by (simp add: Cons.IH)
qed simp

subsection \<open>Opening the store\<close>

text \<open>
  \<open>NewBukuDB\<close> never gives a count above \<open>MaxBookmarks\<close>, and on a table whose ids are
  1 to \<open>N\<close>, with \<open>N\<close> from 1 to \<open>MaxBookmarks\<close>, it gives a store that satisfies the
  invariant.
\<close>

lemma fold_max_rid: "fold (\<lambda>r m. max (rid r) m) rs a = Max (insert a (rid ` set rs))"
proof (induction rs arbitrary: a)
  case Nil
  then show ?case by simp
next
  case (Cons r rs)
  have "Max (insert (max (rid r) a) (rid ` set rs)) = Max (insert a (insert (rid r) (rid ` set rs)))"
    by (cases "rs = []") (simp_all add: max.commute max.left_commute)
  with Cons show ?case by simp
qed

lemma getMaxBookmarkID_le: "getMaxBookmarkID t = Inr l \<Longrightarrow> l \<le> MaxBookmarks"
  by (auto simp: getMaxBookmarkID_def split: sum.splits if_splits)

lemma NewBukuDB_len: "NewBukuDB t = Inr db \<Longrightarrow> conn db = t \<and> len db \<le> MaxBookmarks"
  by (auto simp: NewBukuDB_def split: sum.splits dest: getMaxBookmarkID_le)

lemma NewBukuDB_contiguous:
  assumes "distinct (map rid t)" "set (map rid t) = {1..N}" "1 \<le> N" "N \<le> MaxBookmarks"
  shows "NewBukuDB t = Inr \<lparr>conn = t, len = N\<rparr> \<and> store_inv \<lparr>conn = t, len = N\<rparr>"
proof -
  from assms(2,3) have "t \<noteq> []" by auto
  then obtain r rs where t: "t = r # rs" by (cases t) auto
  have "sql_select_max_id t = Inr (Max (set (map rid t)))"
    unfolding t by (simp add: sql_select_max_id_def fold_max_rid)
  also have "Max (set (map rid t)) = N"
    unfolding assms(2) using assms(3) by (simp add: Max_eq_iff)
  finally have "getMaxBookmarkID t = Inr N"
    using assms(4) by (simp add: getMaxBookmarkID_def)
  then have "NewBukuDB t = Inr \<lparr>conn = t, len = N\<rparr>" by (simp add: NewBukuDB_def)
  moreover have "store_inv \<lparr>conn = t, len = N\<rparr>"
    using assms by (simp add: store_inv_def MaxBookmarks_def)
  ultimately show ?thesis by blast
qed

subsection \<open>Facts about the stores of the scenarios\<close>

lemma abcd_ids: "map rid (conn abcd_db) = [1, 2, 3, 4]"
  by (simp add: abcd_db_def abcd_table_def)

lemma set_1_4: "{1..4::int} = {1, 2, 3, 4}"
  by auto

lemma abcd_len: "len abcd_db = 4"
  by (simp add: abcd_db_def)

lemma abcd_inv: "store_inv abcd_db"
  unfolding store_inv_def abcd_ids abcd_len set_1_4 by simp

subsection \<open>Capacity\<close>

text \<open>
  Claim C9. With \<open>MaxBookmarks = 1000\<close>, \<open>Add\<close> on a store with count \<open>N\<close> fails with
  \<open>CapacityExceeded\<close> whenever \<open>N + 1 > MaxBookmarks\<close>, and then the store, its count
  included, is as before; when \<open>N + 1 \<le> MaxBookmarks\<close> it does not fail so, and where it
  succeeds the count becomes \<open>N + 1\<close>. The count ranges over what the store can hold
  (it never exceeds \<open>MaxBookmarks\<close>); the statement holds for every count that, increased
  by one, still fits the 16-bit id.
\<close>

theorem Add_capacity:
  assumes "0 \<le> len db" "len db < 65535"
  shows "MaxBookmarks = 1000 \<and>
    (len db + 1 > MaxBookmarks \<longrightarrow> Add b db = (Some CapacityExceeded, db)) \<and>
    (len db + 1 \<le> MaxBookmarks \<longrightarrow> fst (Add b db) \<noteq> Some CapacityExceeded \<and>
       (fst (Add b db) = None \<longrightarrow> Len (snd (Add b db)) = Len db + 1))"
  unfolding Add_unfold [OF assms] Len_def
  by (auto simp: MaxBookmarks_def split: sum.splits)

lemma full_len: "len full_db = 1000"
  by (simp add: full_db_def)

lemma Add_e_abcd:
  "Add bookmark_e abcd_db =
     (None, \<lparr>conn = abcd_table @ [\<lparr>rid = 5, rurl = ''e'', rmetadata = ''E'', rtags = ''new,t2'',
                                      rdesc = [], rflags = 0\<rparr>], len = 5\<rparr>)"
proof -
  have b: "0 \<le> len abcd_db" "len abcd_db < 65535" by (simp_all add: abcd_len)
  have ins: "sql_insert \<lparr>rid = 5, rurl = ''e'', rmetadata = ''E'', rtags = ''new,t2'',
                                      rdesc = [], rflags = 0\<rparr> abcd_table = Inr (abcd_table @ [\<lparr>rid = 5, rurl = ''e'', rmetadata = ''E'', rtags = ''new,t2'',
                                      rdesc = [], rflags = 0\<rparr>])"
    by (simp add: sql_insert_def abcd_table_def)
  show ?thesis
    unfolding Add_unfold [OF b] abcd_len
    by (simp add: MaxBookmarks_def bookmark_e_def abcd_db_def ins)
qed

theorem Add_capacity_witness:
  "Add bookmark_e full_db = (Some CapacityExceeded, full_db) \<and>
   Len (snd (Add bookmark_e abcd_db)) = Len abcd_db + 1"
proof -
  have a: "0 \<le> len full_db" "len full_db < 65535" by (simp_all add: full_len)
  have b: "0 \<le> len abcd_db" "len abcd_db < 65535" by (simp_all add: abcd_len)
  have ok: "fst (Add bookmark_e abcd_db) = None"
    by (simp add: Add_e_abcd)
  have 1: "Add bookmark_e full_db = (Some CapacityExceeded, full_db)"
    using Add_capacity [OF a, of bookmark_e] by (simp add: full_len MaxBookmarks_def)
  have 2: "Len (snd (Add bookmark_e abcd_db)) = Len abcd_db + 1"
    using Add_capacity [OF b, of bookmark_e] ok by (simp add: abcd_len MaxBookmarks_def)
  from 1 2 show ?thesis by blast
qed

subsection \<open>Remove renumbers\<close>

text \<open>
  Claim C2. On a store whose ids are 1 to \<open>N\<close> and for an id in that range, \<open>Remove\<close>
  succeeds; the count is then \<open>N - 1\<close>, every row below the removed id is as it was,
  every row that had an id \<open>j\<close> above it is now at \<open>j - 1\<close> and differs from the old
  row in its id only (url, title, tags and comment are kept), and no row is left at
  \<open>N\<close> or beyond: the removed row is gone.
\<close>

theorem Remove_renumbers:
  assumes "distinct (map rid (conn db))" "set (map rid (conn db)) = {1..len db}"
    "1 \<le> uint bid" "uint bid \<le> len db"
  shows "\<exists>db'. Remove bid db = (None, db') \<and> Len db' = Len db - 1 \<and>
     (\<forall>j. j < uint bid \<longrightarrow> row_at (conn db') j = row_at (conn db) j) \<and>
     (\<forall>j. uint bid < j \<and> j \<le> len db \<longrightarrow>
        row_at (conn db') (j - 1) = map_option (\<lambda>r. r\<lparr>rid := j - 1\<rparr>) (row_at (conn db) j)) \<and>
     (\<forall>j. len db \<le> j \<longrightarrow> row_at (conn db') j = None)"
proof -
  define i where "i = uint bid"
  define db' where "db' = db\<lparr>conn := shift_ids i (len db) (sql_delete i (conn db)), len := len db - 1\<rparr>"
  have nz: "bid \<noteq> 0" using assms(3) by auto
  have c: "Remove bid db = (None, db')"
    unfolding db'_def i_def by (rule Remove_closed [OF assms(1) nz assms(4)])
  have n: "i \<notin> set (map rid (sql_delete i (conn db)))" by (auto simp: sql_delete_def)
  have cn: "conn db' = shift_ids i (len db) (sql_delete i (conn db))" by (simp add: db'_def)
  have out: "row_at (conn db) j = None" if "len db < j" for j
    using that assms(2) by (simp add: row_at_None)
  have 1: "row_at (conn db') j = row_at (conn db) j" if "j < i" for j
    unfolding cn row_at_shift [OF n] row_at_delete using that by simp
  have 2: "row_at (conn db') (j - 1) = map_option (\<lambda>r. r\<lparr>rid := j - 1\<rparr>) (row_at (conn db) j)"
    if "i < j \<and> j \<le> len db" for j
    unfolding cn row_at_shift [OF n] row_at_delete using that by simp
  have 3: "row_at (conn db') j = None" if "len db \<le> j" for j
    unfolding cn row_at_shift [OF n] row_at_delete
    using that assms(4) out [of j] by (simp add: i_def)
  have 4: "Len db' = Len db - 1" by (simp add: Len_def db'_def)
  from c 1 2 3 4 show ?thesis unfolding i_def by blast
qed

lemma abcd_conn: "conn abcd_db = abcd_table"
  by (simp add: abcd_db_def)

lemma abcd_rows:
  "map_option rurl (row_at abcd_table 1) = Some ''a''"
  "map_option rurl (row_at abcd_table 3) = Some ''c''"
  "map_option rurl (row_at abcd_table 4) = Some ''d''"
  by (simp_all add: row_at_def abcd_table_def)

theorem Remove_renumbers_witness:
  "\<exists>db'. Remove 2 abcd_db = (None, db') \<and> Len db' = 3 \<and>
     map_option rurl (row_at (conn db') 1) = Some ''a'' \<and>
     map_option rurl (row_at (conn db') 2) = Some ''c'' \<and>
     map_option rurl (row_at (conn db') 3) = Some ''d'' \<and>
     row_at (conn db') 4 = None"
proof -
  have h1: "distinct (map rid (conn abcd_db))" unfolding abcd_ids by simp
  have h2: "set (map rid (conn abcd_db)) = {1..len abcd_db}"
    unfolding abcd_ids abcd_len set_1_4 by simp
  have h3: "1 \<le> uint (2 :: 16 word)" by simp
  have h4: "uint (2 :: 16 word) \<le> len abcd_db" by (simp add: abcd_len)
  from Remove_renumbers [OF h1 h2 h3 h4] obtain db' where
    r: "Remove 2 abcd_db = (None, db')" and l: "Len db' = Len abcd_db - 1" and
    lo: "\<And>j. j < uint (2 :: 16 word) \<Longrightarrow> row_at (conn db') j = row_at (conn abcd_db) j" and
    hi: "\<And>j. uint (2 :: 16 word) < j \<and> j \<le> len abcd_db \<Longrightarrow>
        row_at (conn db') (j - 1) = map_option (\<lambda>r. r\<lparr>rid := j - 1\<rparr>) (row_at (conn abcd_db) j)" and
    out: "\<And>j. len abcd_db \<le> j \<Longrightarrow> row_at (conn db') j = None"
    by blast
  have a: "map_option rurl (row_at (conn db') 1) = Some ''a''"
    using lo [of 1] by (simp add: abcd_conn abcd_rows)
  have c: "map_option rurl (row_at (conn db') 2) = Some ''c''"
    using hi [of 3] by (simp add: abcd_conn abcd_len option.map_comp comp_def abcd_rows)
  have d: "map_option rurl (row_at (conn db') 3) = Some ''d''"
    using hi [of 4] by (simp add: abcd_conn abcd_len option.map_comp comp_def abcd_rows)
  have e: "row_at (conn db') 4 = None"
    using out [of 4] by (simp add: abcd_len)
  from r l a c d e show ?thesis by (simp add: Len_def abcd_len)
qed

subsection \<open>The loader\<close>

lemma go_div_nonneg: "0 \<le> a \<Longrightarrow> 0 < b \<Longrightarrow> go_div a b = a div b"
  by (cases "a = 0") (simp_all add: go_div_def)

lemma epw_div: "0 \<le> N \<Longrightarrow> 0 < W \<Longrightarrow> entriesPerWorker N W = (N + W - 1) div W"
  unfolding entriesPerWorker_def by (rule go_div_nonneg) auto

lemma epw_cover:
  assumes "0 \<le> N" "0 < W"
  shows "N \<le> W * entriesPerWorker N W"
proof -
  have "N + W - 1 = W * ((N + W - 1) div W) + (N + W - 1) mod W" by simp
  moreover have "(N + W - 1) mod W < W" using assms(2) by simp
  ultimately show ?thesis unfolding epw_div [OF assms] by linarith
qed

lemma epw_tight:
  assumes "0 \<le> N" "0 < W"
  shows "W * (entriesPerWorker N W - 1) < N"
proof -
  have "N + W - 1 = W * ((N + W - 1) div W) + (N + W - 1) mod W" by simp
  moreover have "0 \<le> (N + W - 1) mod W" using assms(2) by simp
  ultimately have "W * ((N + W - 1) div W) \<le> N + W - 1" by linarith
  then show ?thesis unfolding epw_div [OF assms] by (simp add: algebra_simps)
qed

lemma epw_pos:
  assumes "1 \<le> N" "0 < W"
  shows "1 \<le> entriesPerWorker N W"
proof -
  have "0 < (N + W - 1) div W" using assms by (simp add: pos_imp_zdiv_pos_iff)
  then show ?thesis using assms by (simp add: epw_div)
qed

lemma part_index:
  assumes "1 \<le> N" "0 < W" "0 \<le> i"
    "workerStart N W i \<le> k" "k \<le> workerEnd N W i"
  shows "i = (k - 1) div entriesPerWorker N W"
proof -
  define e where "e = entriesPerWorker N W"
  have e: "1 \<le> e" unfolding e_def by (rule epw_pos [OF assms(1,2)])
  have lo: "i * e \<le> k - 1" using assms(4) by (simp add: workerStart_def e_def)
  have "k \<le> (i + 1) * e" using assms(5) by (simp add: workerEnd_def e_def Let_def split: if_splits)
  then have hi: "k - 1 - i * e < e" by (simp add: algebra_simps)
  have "k - 1 = e * i + (k - 1 - i * e)" by (simp add: algebra_simps)
  then have "(k - 1) div e = i"
    using lo hi e by (intro int_div_pos_eq [of _ e i "k - 1 - i * e"]) auto
  then show ?thesis by (simp add: e_def)
qed

lemma part_covers:
  assumes "1 \<le> k" "k \<le> N" "0 < W"
  defines "i \<equiv> (k - 1) div entriesPerWorker N W"
  shows "0 \<le> i \<and> i < W \<and> workerStart N W i \<le> k \<and> k \<le> workerEnd N W i"
proof -
  define e where "e = entriesPerWorker N W"
  have N: "1 \<le> N" "0 \<le> N" using assms(1,2) by auto
  have e: "1 \<le> e" unfolding e_def by (rule epw_pos [OF N(1) assms(3)])
  have i: "i = (k - 1) div e" by (simp add: i_def e_def)
  have dm: "k - 1 = e * i + (k - 1) mod e" unfolding i by simp
  have m: "0 \<le> (k - 1) mod e" "(k - 1) mod e < e" using e by simp_all
  have i0: "0 \<le> i" unfolding i using assms(1) e by (simp add: pos_imp_zdiv_nonneg_iff)
  have iW: "i < W"
  proof (rule ccontr)
    assume "\<not> i < W"
    then have "W * e \<le> i * e" using e by (intro mult_right_mono) auto
    moreover have "N \<le> W * e" unfolding e_def by (rule epw_cover [OF N(2) assms(3)])
    moreover have "i * e \<le> k - 1" using dm m by (simp add: mult.commute)
    ultimately show False using assms(2) by linarith
  qed
  have s: "workerStart N W i \<le> k"
    using dm m by (simp add: workerStart_def e_def [symmetric] algebra_simps)
  have "k \<le> (i + 1) * e" using dm m by (simp add: algebra_simps)
  then have en: "k \<le> workerEnd N W i"
    using assms(2) by (simp add: workerEnd_def e_def [symmetric] Let_def)
  from i0 iW s en show ?thesis by blast
qed

lemma part_within:
  assumes "0 \<le> N" "0 < W" "0 \<le> i" "workerStart N W i \<le> k" "k \<le> workerEnd N W i"
  shows "1 \<le> k \<and> k \<le> N"
proof -
  have e: "0 \<le> entriesPerWorker N W"
    using assms(1,2) by (simp add: epw_div pos_imp_zdiv_nonneg_iff)
  have "0 \<le> i * entriesPerWorker N W" using assms(3) e by simp
  then have "1 \<le> k" using assms(4) by (simp add: workerStart_def)
  moreover have "k \<le> N" using assms(5) by (simp add: workerEnd_def Let_def split: if_splits)
  ultimately show ?thesis by blast
qed

lemma scanRows_agrees:
  assumes rng: "\<forall>r\<in>set t. 0 \<le> rid r \<and> rid r \<le> 65535"
  shows "set rs \<subseteq> set t \<Longrightarrow> map_agrees t m \<Longrightarrow>
    \<exists>m'. scanRows rs m = (None, m') \<and> map_agrees t m' \<and>
         fst ` set m' = fst ` set m \<union> (\<lambda>r. word_of_int (rid r)) ` set rs"
proof (induction rs arbitrary: m)
  case Nil
  then show ?case by simp
next
  case (Cons r rs)
  define k :: "16 word" where "k = word_of_int (rid r)"
  define m1 where "m1 = AList.update k (scanRow r) m"
  have rt: "r \<in> set t" using Cons.prems(1) by simp
  then have r: "0 \<le> rid r" "rid r \<le> 65535" using rng by auto
  have uk: "uint k = rid r" unfolding k_def using r by (intro uint16_of_int) auto
  have d1: "distinct (map fst m1)"
    unfolding m1_def using Cons.prems(2) by (simp add: map_agrees_def distinct_update)
  have c1: "\<exists>r'\<in>set t. rid r' = uint k' \<and> b = scanRow r'" if "map_of m1 k' = Some b" for k' b
  proof (cases "k' = k")
    case True
    with that have "b = scanRow r" by (simp add: m1_def update_conv')
    with rt uk True show ?thesis by auto
  next
    case False
    with that have "map_of m k' = Some b" by (simp add: m1_def update_conv')
    with Cons.prems(2) show ?thesis by (simp add: map_agrees_def)
  qed
  have a1: "map_agrees t m1" unfolding map_agrees_def using d1 c1 by blast
  have s1: "set rs \<subseteq> set t" using Cons.prems(1) by simp
  from Cons.IH [OF s1 a1] obtain m' where
    m': "scanRows rs m1 = (None, m')" "map_agrees t m'"
      "fst ` set m' = fst ` set m1 \<union> (\<lambda>r. word_of_int (rid r)) ` set rs" by blast
  have k1: "fst ` set m1 = {k} \<union> fst ` set m" unfolding m1_def by (rule dom_update)
  have "scanRows (r # rs) m = (None, m')"
    using r m'(1) by (simp add: m1_def k_def)
  moreover have "fst ` set m' = fst ` set m \<union> (\<lambda>r. word_of_int (rid r)) ` set (r # rs)"
    unfolding m'(3) k1 by (auto simp: k_def)
  ultimately show ?case using m'(2) by blast
qed

lemma runWorkers_agrees:
  assumes rng: "\<forall>r\<in>set t. 0 \<le> rid r \<and> rid r \<le> 65535"
  shows "map_agrees t m \<Longrightarrow>
    \<exists>m'. runWorkers t N W sched (perr, m) = (perr, m') \<and> map_agrees t m' \<and>
         fst ` set m' = fst ` set m \<union> word_of_int ` (\<Union>i\<in>set sched. workerIds t N W i)"
proof (induction sched arbitrary: m)
  case Nil
  then show ?case by simp
next
  case (Cons i sched)
  define rs where "rs = sql_select_between (workerStart N W i) (workerEnd N W i) t"
  have sub: "set rs \<subseteq> set t" by (auto simp: rs_def sql_select_between_def)
  from scanRows_agrees [OF rng sub Cons.prems] obtain m1 where
    m1: "scanRows rs m = (None, m1)" "map_agrees t m1"
      "fst ` set m1 = fst ` set m \<union> (\<lambda>r. word_of_int (rid r)) ` set rs" by blast
  from Cons.IH [OF m1(2)] obtain m' where
    m': "runWorkers t N W sched (perr, m1) = (perr, m')" "map_agrees t m'"
      "fst ` set m' = fst ` set m1 \<union> word_of_int ` (\<Union>i\<in>set sched. workerIds t N W i)" by blast
  have "runWorkers t N W (i # sched) (perr, m) = (perr, m')"
    using m1(1) m'(1) by (simp add: processBookmarkRange_def rs_def)
  moreover have "fst ` set m' = fst ` set m \<union> word_of_int ` (\<Union>i\<in>set (i # sched). workerIds t N W i)"
  proof -
    have e1: "(\<lambda>r. word_of_int (rid r) :: 16 word) ` set rs = word_of_int ` workerIds t N W i"
      by (simp add: workerIds_def rs_def image_image)
    have e2: "(\<Union>i\<in>set (i # sched). workerIds t N W i) =
        workerIds t N W i \<union> (\<Union>i\<in>set sched. workerIds t N W i)" by simp
    show ?thesis unfolding m'(3) m1(3) e1 e2 image_Un by (simp add: Un_assoc)
  qed
  ultimately show ?case using m'(2) by blast
qed

lemma row_at_distinct: "distinct (map rid t) \<Longrightarrow> r \<in> set t \<Longrightarrow> row_at t (rid r) = Some r"
  unfolding row_at_def by (induction t) (auto simp: image_iff)

lemma sorted_uint_ID: "sorted (map ID bs) \<Longrightarrow> sorted (map (\<lambda>b. uint (ID b)) bs)"
  by (induction bs) (auto simp: word_le_def)

lemma distinct_map_sort_key: "distinct (map f (sort_key g xs)) = distinct (map f xs)"
  by (simp only: distinct_map distinct_sort set_sort)

lemma workers_cover:
  assumes "set (map rid t) = {1..N}" "0 \<le> N" "0 < W" "set sched = {0..<W}"
  shows "(\<Union>i\<in>set sched. workerIds t N W i) = {1..N}"
proof (intro set_eqI iffI)
  fix k assume "k \<in> (\<Union>i\<in>set sched. workerIds t N W i)"
  then have "k \<in> rid ` set t" by (auto simp: workerIds_def sql_select_between_def)
  then show "k \<in> {1..N}" using assms(1) by simp
next
  fix k assume k: "k \<in> {1..N}"
  then have k1: "1 \<le> k" "k \<le> N" by auto
  define i where "i = (k - 1) div entriesPerWorker N W"
  from part_covers [OF k1 assms(3)] have
    i: "0 \<le> i" "i < W" "workerStart N W i \<le> k" "k \<le> workerEnd N W i"
    unfolding i_def by blast+
  from k assms(1) have "k \<in> rid ` set t" by simp
  then obtain r where r: "r \<in> set t" "rid r = k" by blast
  then have "k \<in> workerIds t N W i"
    using i(3,4) by (force simp: workerIds_def sql_select_between_def)
  moreover have "i \<in> set sched" using i(1,2) assms(4) by simp
  ultimately show "k \<in> (\<Union>i\<in>set sched. workerIds t N W i)" by blast
qed

lemma loadBookmarks_closed:
  assumes d: "distinct (map rid t)" and s: "set (map rid t) = {1..N}"
    and N: "0 \<le> N" "N \<le> 65535" and W: "0 < W" and sched: "set sched = {0..<W}"
  shows "loadBookmarks t N W sched = Inr (map (\<lambda>i. scanRow (the (row_at t i))) [1..N])"
proof -
  have rng: "\<forall>r\<in>set t. 0 \<le> rid r \<and> rid r \<le> 65535"
  proof
    fix r assume "r \<in> set t"
    then have "rid r \<in> {1..N}" using s by auto
    then show "0 \<le> rid r \<and> rid r \<le> 65535" using N by auto
  qed
  have a0: "map_agrees t []" by (simp add: map_agrees_def)
  from runWorkers_agrees [OF rng a0, of N W sched None] obtain m where
    run: "runWorkers t N W sched (None, []) = (None, m)" and agr: "map_agrees t m" and
    keys0: "fst ` set m = word_of_int ` (\<Union>i\<in>set sched. workerIds t N W i)"
    by auto
  have keys: "fst ` set m = word_of_int ` {1..N}"
    using keys0 unfolding workers_cover [OF s N(1) W sched] by simp
  have dm: "distinct (map fst m)" using agr by (simp add: map_agrees_def)
  have entry: "\<exists>r\<in>set t. rid r = uint k \<and> b = scanRow r" if "(k, b) \<in> set m" for k b
  proof -
    from that dm have "map_of m k = Some b" by simp
    with agr show ?thesis by (simp add: map_agrees_def)
  qed
  have id_key: "ID b = k" if "(k, b) \<in> set m" for k b
  proof -
    from entry [OF that] obtain r where "rid r = uint k" "b = scanRow r" by blast
    then show ?thesis by (simp add: scanRow_def)
  qed
  define bs where "bs = sort_key ID (map snd m)"
  define G where "G = (\<lambda>i. scanRow (the (row_at t i)))"
  have res: "loadBookmarks t N W sched = Inr bs"
    by (simp add: loadBookmarks_def run bs_def)
  have ids_m: "map (\<lambda>b. uint (ID b)) (map snd m) = map uint (map fst m)"
    using id_key by (auto simp: comp_def)
  have inj: "inj_on uint (set (map fst m))" by (rule inj_onI) (rule word_uint_eqI)
  have d_ids: "distinct (map (\<lambda>b. uint (ID b)) (map snd m))"
    unfolding ids_m using dm inj distinct_map [of uint "map fst m"] by blast
  have "distinct (map (\<lambda>b. uint (ID b)) bs)"
    using d_ids unfolding bs_def by (simp only: distinct_map_sort_key)
  moreover have "sorted (map (\<lambda>b. uint (ID b)) bs)"
    unfolding bs_def by (intro sorted_uint_ID) simp
  moreover have "set (map (\<lambda>b. uint (ID b)) bs) = {1..N}"
  proof -
    have "set (map (\<lambda>b. uint (ID b)) bs) = set (map uint (map fst m))"
      unfolding bs_def using ids_m by (metis set_map set_sort)
    also have "\<dots> = uint ` (fst ` set m)" by (simp only: set_map)
    also have "\<dots> = uint ` (word_of_int ` {1..N} :: 16 word set)" by (simp only: keys)
    also have "\<dots> = {1..N}"
    proof -
      have "uint (word_of_int k :: 16 word) = k" if "k \<in> {1..N}" for k
        using that N by (intro uint16_of_int) auto
      then show ?thesis by (force simp: image_iff)
    qed
    finally show ?thesis .
  qed
  ultimately have L: "map (\<lambda>b. uint (ID b)) bs = [1..N]"
    by (intro sorted_distinct_set_unique) auto
  have content: "b = G (uint (ID b))" if "b \<in> set bs" for b
  proof -
    from that obtain k where kb: "(k, b) \<in> set m" by (auto simp: bs_def)
    from entry [OF kb] obtain r where r: "r \<in> set t" "rid r = uint k" "b = scanRow r" by blast
    have "row_at t (rid r) = Some r" by (rule row_at_distinct [OF d r(1)])
    with r id_key [OF kb] show ?thesis by (simp add: G_def)
  qed
  have "bs = map (\<lambda>b. G (uint (ID b))) bs"
    using content by (simp add: map_idI)
  also have "\<dots> = map G (map (\<lambda>b. uint (ID b)) bs)" by (simp add: comp_def)
  also have "\<dots> = map G [1..N]" unfolding L ..
  finally show ?thesis using res by (simp add: G_def)
qed

lemma GetAll_closed:
  assumes "distinct (map rid (conn db))" "set (map rid (conn db)) = {1..len db}"
    "0 \<le> len db" "len db \<le> 65535" "0 < W" "set sched = {0..<W}"
  shows "GetAll W sched db = Inr (map (\<lambda>i. scanRow (the (row_at (conn db) i))) [1..len db])"
  unfolding GetAll_def by (rule loadBookmarks_closed [OF assms])

lemma scanned_ids:
  assumes d: "distinct (map rid t)" and s: "set (map rid t) = {1..N}" and N: "N \<le> 65535"
  shows "map (\<lambda>b. uint (ID b)) (map (\<lambda>i. scanRow (the (row_at t i))) [1..N]) = [1..N]"
proof -
  have *: "uint (ID (scanRow (the (row_at t i)))) = i" if "i \<in> set [1..N]" for i
  proof -
    from that s have "i \<in> rid ` set t" by simp
    then obtain r where r: "r \<in> set t" "rid r = i" by blast
    have "row_at t (rid r) = Some r" by (rule row_at_distinct [OF d r(1)])
    moreover have "uint (word_of_int i :: 16 word) = i"
      using that N by (intro uint16_of_int) auto
    ultimately show ?thesis using r(2) by (simp add: scanRow_def)
  qed
  have "map (\<lambda>i. uint (ID (scanRow (the (row_at t i))))) [1..N] = [1..N]"
    by (rule map_idI) (rule *)
  then show ?thesis by (simp only: map_map comp_def)
qed

subsection \<open>Contiguity\<close>

text \<open>
  Claim C1. From a store whose ids are exactly 1 to \<open>N\<close>, the cached count, after each
  call of every sequence of \<open>Add\<close> and \<open>Remove\<close> calls (after the first \<open>n\<close> calls,
  for each \<open>n\<close>; in particular after each call that succeeds) the ids of the rows of the
  table are exactly 1 to \<open>Len()\<close>, each once, and \<open>GetAll\<close> returns, and the ids it
  returns are exactly 1 to \<open>Len()\<close>. The count is below 65535, so that the next id
  is a 16-bit id (the store itself holds at most \<open>MaxBookmarks\<close>); the storage engine
  runs every statement the store sends.
\<close>

theorem contiguity_invariant:
  assumes "distinct (map rid (conn db))" "set (map rid (conn db)) = {1..len db}"
    "0 \<le> len db" "len db < 65535" "0 < numCPU" "set sched = {0..<numCPU}"
  shows "\<forall>n\<le>length calls.
           distinct (map rid (conn (run (take n calls) db))) \<and>
           set (map rid (conn (run (take n calls) db))) = {1..Len (run (take n calls) db)} \<and>
           (\<exists>bs. GetAll numCPU sched (run (take n calls) db) = Inr bs \<and>
              set (map (\<lambda>b. uint (ID b)) bs) = {1..Len (run (take n calls) db)})"
proof (intro allI impI)
  fix n
  define db' where "db' = run (take n calls) db"
  have "store_inv db" using assms(1-4) by (simp add: store_inv_def)
  then have inv: "store_inv db'" unfolding db'_def by (rule run_inv)
  then have h: "distinct (map rid (conn db'))" "set (map rid (conn db')) = {1..len db'}"
    "0 \<le> len db'" "len db' \<le> 65535"
    by (simp_all add: store_inv_def)
  have "GetAll numCPU sched db' = Inr (map (\<lambda>i. scanRow (the (row_at (conn db') i))) [1..len db'])"
    by (rule GetAll_closed [OF h assms(5,6)])
  moreover have "set (map (\<lambda>b. uint (ID b)) (map (\<lambda>i. scanRow (the (row_at (conn db') i))) [1..len db']))
      = {1..Len db'}"
    unfolding scanned_ids [OF h(1,2,4)] by (simp add: Len_def)
  ultimately have "\<exists>bs. GetAll numCPU sched db' = Inr bs \<and>
           set (map (\<lambda>b. uint (ID b)) bs) = {1..Len db'}" by blast
  with h(1,2) show "distinct (map rid (conn db')) \<and>
           set (map rid (conn db')) = {1..Len db'} \<and>
           (\<exists>bs. GetAll numCPU sched db' = Inr bs \<and>
              set (map (\<lambda>b. uint (ID b)) bs) = {1..Len db'})"
    by (simp add: Len_def)
qed

lemma set_0_3: "set [2, 0, 1] = {0..<3::int}"
  by auto

theorem contiguity_invariant_witness:
  "distinct (map rid (conn (run [Call_Add bookmark_e, Call_Remove 2] abcd_db))) \<and>
   set (map rid (conn (run [Call_Add bookmark_e, Call_Remove 2] abcd_db))) =
     {1..Len (run [Call_Add bookmark_e, Call_Remove 2] abcd_db)} \<and>
   (\<exists>bs. GetAll 3 [2, 0, 1] (run [Call_Add bookmark_e, Call_Remove 2] abcd_db) = Inr bs \<and>
      set (map (\<lambda>b. uint (ID b)) bs) = {1..Len (run [Call_Add bookmark_e, Call_Remove 2] abcd_db)})"
proof -
  have h1: "distinct (map rid (conn abcd_db))" unfolding abcd_ids by simp
  have h2: "set (map rid (conn abcd_db)) = {1..len abcd_db}"
    unfolding abcd_ids abcd_len set_1_4 by simp
  have h3: "0 \<le> len abcd_db" "len abcd_db < 65535" by (simp_all add: abcd_len)
  have h4: "(0::int) < 3" by simp
  from contiguity_invariant [OF h1 h2 h3 h4 set_0_3, of "[Call_Add bookmark_e, Call_Remove 2]"]
  have "2 \<le> length [Call_Add bookmark_e, Call_Remove 2] \<longrightarrow>
     distinct (map rid (conn (run (take 2 [Call_Add bookmark_e, Call_Remove 2]) abcd_db))) \<and>
     set (map rid (conn (run (take 2 [Call_Add bookmark_e, Call_Remove 2]) abcd_db))) =
       {1..Len (run (take 2 [Call_Add bookmark_e, Call_Remove 2]) abcd_db)} \<and>
     (\<exists>bs. GetAll 3 [2, 0, 1] (run (take 2 [Call_Add bookmark_e, Call_Remove 2]) abcd_db) = Inr bs \<and>
      set (map (\<lambda>b. uint (ID b)) bs) = {1..Len (run (take 2 [Call_Add bookmark_e, Call_Remove 2]) abcd_db)})"
    by (rule spec)
  then show ?thesis by simp
qed

lemma seven_ids: "map rid (conn seven_db) = [3, 1, 2, 7, 5, 6, 4]"
  by (simp add: seven_db_def)

lemma seven_len: "len seven_db = 7"
  by (simp add: seven_db_def)

lemma set_1_7: "set [3, 1, 2, 7, 5, 6, 4] = {1..7::int}"
  by auto

lemma upto_1_7: "[1..7::int] = [1, 2, 3, 4, 5, 6, 7]"
  by (simp add: upto.simps)

subsection \<open>The partitions of the loader\<close>

text \<open>
  Claim C7. With \<open>W\<close> workers and \<open>perWorker\<close> the ceiling of \<open>N / W\<close> (the least
  \<open>e\<close> with \<open>N \<le> W * e\<close>), the ranges from \<open>i * perWorker + 1\<close> to the smaller of
  \<open>(i + 1) * perWorker\<close> and \<open>N\<close>, for \<open>i\<close> from 0 below \<open>W\<close>, tile the ids 1 to \<open>N\<close>:
  every id is in exactly one range and no range holds anything else, whether or not
  \<open>W\<close> divides \<open>N\<close> and also when \<open>W > N\<close>. \<open>GetAll\<close> returns the \<open>N\<close> bookmarks in
  ascending order of id, each the scan of the row with its id, in whatever order the
  workers ran. The ids of the store are 1 to \<open>N\<close>, each once, and \<open>N\<close> fits the 16-bit
  id of a bookmark (the store keeps it at most \<open>MaxBookmarks\<close>).
\<close>

theorem GetAll_partitions_sorted:
  assumes "distinct (map rid (conn db))" "set (map rid (conn db)) = {1..len db}"
    "0 \<le> len db" "len db \<le> 65535" "0 < W" "set sched = {0..<W}"
  shows "W * (entriesPerWorker (len db) W - 1) < len db \<and> len db \<le> W * entriesPerWorker (len db) W \<and>
    (\<forall>k. 1 \<le> k \<and> k \<le> len db \<longrightarrow>
       (\<exists>!i. 0 \<le> i \<and> i < W \<and> workerStart (len db) W i \<le> k \<and> k \<le> workerEnd (len db) W i)) \<and>
    (\<forall>i k. 0 \<le> i \<and> i < W \<and> workerStart (len db) W i \<le> k \<and> k \<le> workerEnd (len db) W i
       \<longrightarrow> 1 \<le> k \<and> k \<le> len db) \<and>
    (\<exists>bs. GetAll W sched db = Inr bs \<and> int (length bs) = len db \<and>
       map (\<lambda>b. uint (ID b)) bs = [1..len db] \<and> sorted (map ID bs) \<and>
       (\<forall>b\<in>set bs. \<exists>r\<in>set (conn db). rid r = uint (ID b) \<and> b = scanRow r))"
proof -
  define N where "N = len db"
  define t where "t = conn db"
  have N: "0 \<le> N" "N \<le> 65535" using assms(3,4) by (simp_all add: N_def)
  have d: "distinct (map rid t)" and s: "set (map rid t) = {1..N}"
    using assms(1,2) by (simp_all add: N_def t_def)
  have c1: "W * (entriesPerWorker N W - 1) < N" by (rule epw_tight [OF N(1) assms(5)])
  have c2: "N \<le> W * entriesPerWorker N W" by (rule epw_cover [OF N(1) assms(5)])
  have c3: "\<exists>!i. 0 \<le> i \<and> i < W \<and> workerStart N W i \<le> k \<and> k \<le> workerEnd N W i"
    if k: "1 \<le> k \<and> k \<le> N" for k
  proof (rule ex1I [of _ "(k - 1) div entriesPerWorker N W"])
    show "0 \<le> (k - 1) div entriesPerWorker N W \<and> (k - 1) div entriesPerWorker N W < W \<and>
      workerStart N W ((k - 1) div entriesPerWorker N W) \<le> k \<and>
      k \<le> workerEnd N W ((k - 1) div entriesPerWorker N W)"
      using k assms(5) by (intro part_covers) auto
  next
    fix i assume "0 \<le> i \<and> i < W \<and> workerStart N W i \<le> k \<and> k \<le> workerEnd N W i"
    moreover have "1 \<le> N" using k by linarith
    ultimately show "i = (k - 1) div entriesPerWorker N W"
      using assms(5) by (intro part_index) auto
  qed
  have c4: "1 \<le> k \<and> k \<le> N"
    if "0 \<le> i \<and> i < W \<and> workerStart N W i \<le> k \<and> k \<le> workerEnd N W i" for i k
    using that N(1) assms(5) by (intro part_within [of N W i k]) auto
  define bs where "bs = map (\<lambda>i. scanRow (the (row_at t i))) [1..N]"
  have g: "GetAll W sched db = Inr bs"
    unfolding bs_def N_def t_def by (rule GetAll_closed [OF assms])
  have ids: "map (\<lambda>b. uint (ID b)) bs = [1..N]"
    unfolding bs_def by (rule scanned_ids [OF d s N(2)])
  have "length (map (\<lambda>b. uint (ID b)) bs) = length [1..N]" by (simp only: ids)
  then have l: "int (length bs) = N" using N(1) by simp
  have "sorted (map uint (map ID bs))" using ids by (simp add: comp_def)
  then have so: "sorted (map ID bs)"
    by (simp add: sorted_map word_le_def)
  have rows: "\<exists>r\<in>set t. rid r = uint (ID b) \<and> b = scanRow r" if "b \<in> set bs" for b
  proof -
    from that obtain i where i: "i \<in> {1..N}" "b = scanRow (the (row_at t i))"
      by (auto simp: bs_def)
    from i(1) s have "i \<in> rid ` set t" by simp
    then obtain r where r: "r \<in> set t" "rid r = i" by blast
    have ra: "row_at t (rid r) = Some r" by (rule row_at_distinct [OF d r(1)])
    have "uint (word_of_int i :: 16 word) = i" using i(1) N by (intro uint16_of_int) auto
    with i(2) r ra show ?thesis by (auto simp: scanRow_def)
  qed
  from c1 c2 c3 c4 g l ids so rows show ?thesis
    unfolding N_def t_def by blast
qed


theorem GetAll_partitions_sorted_witness:
  "map (\<lambda>i. (workerStart 7 3 i, workerEnd 7 3 i)) [0, 1, 2] = [(1, 3), (4, 6), (7, 7)] \<and>
   (\<exists>bs. GetAll 3 [2, 0, 1] seven_db = Inr bs \<and> length bs = 7 \<and>
      map (\<lambda>b. uint (ID b)) bs = [1, 2, 3, 4, 5, 6, 7])"
proof -
  have h1: "distinct (map rid (conn seven_db))" unfolding seven_ids by simp
  have h2: "set (map rid (conn seven_db)) = {1..len seven_db}"
    unfolding seven_ids seven_len by (rule set_1_7)
  have h3: "0 \<le> len seven_db" "len seven_db \<le> 65535" by (simp_all add: seven_len)
  have h4: "(0::int) < 3" by simp
  from GetAll_partitions_sorted [OF h1 h2 h3 h4 set_0_3] obtain bs where
    "GetAll 3 [2, 0, 1] seven_db = Inr bs" "int (length bs) = len seven_db"
    "map (\<lambda>b. uint (ID b)) bs = [1..len seven_db]" by blast
  then have "\<exists>bs. GetAll 3 [2, 0, 1] seven_db = Inr bs \<and> length bs = 7 \<and>
      map (\<lambda>b. uint (ID b)) bs = [1, 2, 3, 4, 5, 6, 7]"
    by (simp add: seven_len upto_1_7)
  moreover have "map (\<lambda>i. (workerStart 7 3 i, workerEnd 7 3 i)) [0, 1, 2] = [(1, 3), (4, 6), (7, 7)]"
    by (simp add: workerStart_def workerEnd_def entriesPerWorker_def go_div_def)
  ultimately show ?thesis by blast
qed

subsection \<open>The range check of Get\<close>

lemma Get_in_range:
  assumes "distinct (map rid (conn db))" "set (map rid (conn db)) = {1..len db}"
    "1 \<le> uint bid" "uint bid \<le> len db"
  shows "\<exists>r. row_at (conn db) (uint bid) = Some r \<and> rid r = uint bid \<and>
    Get bid db = Inr \<lparr>ID = bid, URL = rurl r, Title = rmetadata r,
                      Tags = decodeTagsGet (rtags r), Comment = rdesc r\<rparr>"
proof -
  have "uint bid \<in> rid ` set (conn db)" using assms(2,3,4) by simp
  then obtain r where r0: "uint bid = rid r" "r \<in> set (conn db)" by (rule imageE)
  then have r: "r \<in> set (conn db)" "rid r = uint bid" by simp_all
  have ra: "row_at (conn db) (rid r) = Some r" by (rule row_at_distinct [OF assms(1) r(1)])
  have nl: "\<not> bid < 1" using assms(3) unfolding word16_less_1 by linarith
  have "Get bid db = Inr \<lparr>ID = bid, URL = rurl r, Title = rmetadata r,
                      Tags = decodeTagsGet (rtags r), Comment = rdesc r\<rparr>"
    using ra r(2) nl assms(4) by (simp add: Get_def sql_select_id_def row_at_def)
  with ra r(2) show ?thesis by simp
qed

text \<open>
  Claim C8. On a store with count \<open>N\<close>, \<open>Get\<close> fails with the out-of-range error
  exactly for the ids outside 1 to \<open>N\<close>: \<open>Get(0)\<close> and \<open>Get(N + 1)\<close> fail so, and
  \<open>Get(N)\<close> succeeds when \<open>N\<close> is at least 1 (the row is there, the ids being 1 to
  \<open>N\<close>). \<open>N + 1\<close> is an id, a 16-bit number, for every count the store can hold.
\<close>

theorem Get_range_rejection:
  assumes "distinct (map rid (conn db))" "set (map rid (conn db)) = {1..len db}"
    "0 \<le> len db" "len db < 65535"
  shows "(\<forall>bid. Get bid db = Inl OutOfRange \<longleftrightarrow> uint bid < 1 \<or> len db < uint bid) \<and>
    Get 0 db = Inl OutOfRange \<and>
    Get (word_of_int (len db + 1)) db = Inl OutOfRange \<and>
    (1 \<le> len db \<longrightarrow> (\<exists>b. Get (word_of_int (len db)) db = Inr b \<and> uint (ID b) = len db))"
proof -
  have 1: "Get bid db = Inl OutOfRange \<longleftrightarrow> uint bid < 1 \<or> len db < uint bid" for bid
  proof (cases "uint bid < 1 \<or> len db < uint bid")
    case True
    moreover have "uint bid < 1 \<longleftrightarrow> bid < 1"
      using uint_ge_0 [of bid] unfolding word16_less_1 by linarith
    ultimately have "bid < 1 \<or> len db < uint bid" by blast
    then have "Get bid db = Inl OutOfRange" by (auto simp: Get_def)
    with True show ?thesis by blast
  next
    case False
    then have "1 \<le> uint bid" "uint bid \<le> len db" by auto
    from Get_in_range [OF assms(1,2) this] False show ?thesis by auto
  qed
  have 2: "Get 0 db = Inl OutOfRange" by (simp add: 1)
  have "uint (word_of_int (len db + 1) :: 16 word) = len db + 1"
    using assms(3,4) by (intro uint16_of_int) auto
  then have 3: "Get (word_of_int (len db + 1)) db = Inl OutOfRange" by (simp add: 1)
  have 4: "\<exists>b. Get (word_of_int (len db)) db = Inr b \<and> uint (ID b) = len db" if "1 \<le> len db"
  proof -
    have u: "uint (word_of_int (len db) :: 16 word) = len db"
      using assms(3,4) by (intro uint16_of_int) auto
    have "1 \<le> uint (word_of_int (len db) :: 16 word)"
      "uint (word_of_int (len db) :: 16 word) \<le> len db" using that by (simp_all add: u)
    from Get_in_range [OF assms(1,2) this] u show ?thesis by auto
  qed
  from 1 2 3 4 show ?thesis by blast
qed

theorem Get_range_rejection_witness:
  "Get 0 abcd_db = Inl OutOfRange \<and> Get 5 abcd_db = Inl OutOfRange \<and>
   (\<exists>b. Get 4 abcd_db = Inr b \<and> uint (ID b) = 4)"
proof -
  have h1: "distinct (map rid (conn abcd_db))" unfolding abcd_ids by simp
  have h2: "set (map rid (conn abcd_db)) = {1..len abcd_db}"
    unfolding abcd_ids abcd_len set_1_4 by simp
  have h3: "0 \<le> len abcd_db" "len abcd_db < 65535" by (simp_all add: abcd_len)
  from Get_range_rejection [OF h1 h2 h3] show ?thesis by (simp add: abcd_len)
qed

subsection \<open>Adding and reading back\<close>

lemma filter_slice_eq: "filter_slice xs p = filter p xs"
  by (induction xs) auto

lemma Split_nosep: "sep \<notin> set e \<Longrightarrow> Split e sep = [e]"
  by (induction e) auto

lemma Split_append_sep: "sep \<notin> set e \<Longrightarrow> Split (e @ sep # rest) sep = e # Split rest sep"
  by (induction e) auto

lemma Split_Join:
  "ts \<noteq> [] \<Longrightarrow> \<forall>t\<in>set ts. sep \<notin> set t \<Longrightarrow> Split (Join ts [sep]) sep = ts"
proof (induction ts "[sep]" rule: Join.induct)
  case 1
  then show ?case by simp
next
  case (2 e)
  then show ?case by (simp add: Split_nosep)
next
  case (3 e e' es)
  then have "Split (Join (e' # es) [sep]) sep = e' # es" by simp
  moreover have "sep \<notin> set e" using 3 by simp
  ultimately show ?case by (simp add: Split_append_sep)
qed

lemma decodeTagsGet_Join:
  assumes "\<forall>t\<in>set ts. t \<noteq> [] \<and> CHR '','' \<notin> set t"
  shows "decodeTagsGet (Join ts '','') = ts"
proof (cases "ts = []")
  case True
  then show ?thesis by (simp add: decodeTagsGet_def)
next
  case False
  have sp: "Split (Join ts '','') CHR '','' = ts"
    using False assms by (intro Split_Join) auto
  have ne: "Join ts '','' \<noteq> '',''"
  proof
    assume "Join ts '','' = '',''"
    with sp have "ts = Split '','' CHR '',''" by simp
    then have "[] \<in> set ts" by simp
    with assms show False by blast
  qed
  have "filter (\<lambda>t. t \<noteq> []) ts = ts" using assms by (intro filter_True) auto
  with sp ne show ?thesis by (simp add: decodeTagsGet_def filter_slice_eq)
qed

lemma row_at_append_new:
  "i \<notin> set (map rid t) \<Longrightarrow> rid r = i \<Longrightarrow> row_at (t @ [r]) i = Some r"
  unfolding row_at_def by (induction t) auto

text \<open>
  Claim C6, as amended. For a bookmark whose tags are strings that are not empty and
  hold no comma, after a successful \<open>Add\<close> on a store with count \<open>N\<close>, \<open>Get(N + 1)\<close>
  returns the bookmark with its url, title, tags and comment, and with the id \<open>N + 1\<close>
  whatever id the caller gave. (Add joins the tags with commas and Get splits the column
  at every comma and drops the empty pieces, so an empty tag or a tag with a comma does
  not come back: see the counterexample.)
\<close>

theorem Add_Get_roundtrip:
  assumes "0 \<le> len db" "len db < 65535" "fst (Add b db) = None"
    "\<forall>t\<in>set (Tags b). t \<noteq> [] \<and> CHR '','' \<notin> set t"
  shows "Get (word_of_int (len db + 1)) (snd (Add b db)) = Inr (b\<lparr>ID := word_of_int (len db + 1)\<rparr>)"
proof -
  define r where "r = \<lparr>rid = len db + 1, rurl = URL b, rmetadata = Title b,
                        rtags = Join (Tags b) '','', rdesc = Comment b, rflags = 0\<rparr>"
  define k :: "16 word" where "k = word_of_int (len db + 1)"
  have l: "0 \<le> len db" "len db < 65535" using assms(1,2) by simp_all
  have uk: "uint k = len db + 1" unfolding k_def using l by (intro uint16_of_int) auto
  have nl: "\<not> k < 1" unfolding word16_less_1 uk using l(1) by simp
  from assms(3) have ok: "Add b db = (None, db\<lparr>conn := conn db @ [r], len := len db + 1\<rparr>)"
    and new: "len db + 1 \<notin> set (map rid (conn db))"
    unfolding Add_unfold [OF l] r_def [symmetric]
    by (auto simp: sql_insert_def r_def split: if_splits)
  have ra: "row_at (conn db @ [r]) (len db + 1) = Some r"
    by (rule row_at_append_new [OF new]) (simp add: r_def)
  have tg: "decodeTagsGet (rtags r) = Tags b"
    using decodeTagsGet_Join [OF assms(4)] by (simp add: r_def)
  have "Get k (db\<lparr>conn := conn db @ [r], len := len db + 1\<rparr>) =
      Inr \<lparr>ID = word_of_int (rid r), URL = rurl r, Title = rmetadata r,
           Tags = decodeTagsGet (rtags r), Comment = rdesc r\<rparr>"
    using ra nl uk by (simp add: Get_def sql_select_id_def row_at_def)
  also have "\<dots> = Inr (b\<lparr>ID := k\<rparr>)"
    unfolding tg by (simp add: r_def k_def)
  finally show ?thesis unfolding ok k_def by simp
qed

theorem Add_Get_roundtrip_witness:
  "Get 5 (snd (Add bookmark_e abcd_db)) = Inr (bookmark_e\<lparr>ID := 5\<rparr>)"
proof -
  have h: "0 \<le> len abcd_db" "len abcd_db < 65535" by (simp_all add: abcd_len)
  have ok: "fst (Add bookmark_e abcd_db) = None" by (simp add: Add_e_abcd)
  have tg: "\<forall>t\<in>set (Tags bookmark_e). t \<noteq> [] \<and> CHR '','' \<notin> set t"
    by (simp add: bookmark_e_def)
  from Add_Get_roundtrip [OF h ok tg] show ?thesis by (simp add: abcd_len)
qed

lemma Add_empty_tag_abcd:
  "Add bookmark_empty_tag abcd_db =
     (None, \<lparr>conn = abcd_table @ [\<lparr>rid = 5, rurl = ''e'', rmetadata = ''E'', rtags = '',a'',
                                      rdesc = [], rflags = 0\<rparr>], len = 5\<rparr>)"
proof -
  have b: "0 \<le> len abcd_db" "len abcd_db < 65535" by (simp_all add: abcd_len)
  have ins: "sql_insert \<lparr>rid = 5, rurl = ''e'', rmetadata = ''E'', rtags = '',a'',
                          rdesc = [], rflags = 0\<rparr> abcd_table =
      Inr (abcd_table @ [\<lparr>rid = 5, rurl = ''e'', rmetadata = ''E'', rtags = '',a'',
                           rdesc = [], rflags = 0\<rparr>])"
    by (simp add: sql_insert_def abcd_table_def)
  show ?thesis
    unfolding Add_unfold [OF b] abcd_len
    by (simp add: MaxBookmarks_def bookmark_empty_tag_def abcd_db_def ins)
qed

theorem Add_Get_roundtrip_counterexample:
  "fst (Add bookmark_empty_tag abcd_db) = None \<and>
   Get 5 (snd (Add bookmark_empty_tag abcd_db)) =
     Inr \<lparr>ID = 5, URL = ''e'', Title = ''E'', Tags = [''a''], Comment = []\<rparr> \<and>
   Get 5 (snd (Add bookmark_empty_tag abcd_db)) \<noteq> Inr (bookmark_empty_tag\<lparr>ID := 5\<rparr>)"
proof -
  have g: "Get 5 (snd (Add bookmark_empty_tag abcd_db)) =
     Inr \<lparr>ID = 5, URL = ''e'', Title = ''E'', Tags = [''a''], Comment = []\<rparr>"
    unfolding Add_empty_tag_abcd
    by (simp add: Get_def sql_select_id_def abcd_table_def decodeTagsGet_def)
  have ok: "fst (Add bookmark_empty_tag abcd_db) = None" by (simp add: Add_empty_tag_abcd)
  have ne: "Get 5 (snd (Add bookmark_empty_tag abcd_db)) \<noteq> Inr (bookmark_empty_tag\<lparr>ID := 5\<rparr>)"
    unfolding g by (simp add: bookmark_empty_tag_def)
  from ok g ne show ?thesis by blast
qed

subsection \<open>A url that the store already has\<close>

text \<open>
  Claim C5, as amended. For a bookmark whose url is the url of a row of the store,
  \<open>Add\<close> creates no record and leaves the store and \<open>Len()\<close> as they were, and it
  returns an error to the caller: the failed insert (the column URL is UNIQUE and Add
  returns every failure of its INSERT), or the capacity error when the store is full.
\<close>

theorem Add_duplicate_url:
  assumes "URL b \<in> set (map rurl (conn db))"
  shows "snd (Add b db) = db \<and> Len (snd (Add b db)) = Len db \<and>
    (fst (Add b db) = Some FailedToInsert \<or> fst (Add b db) = Some CapacityExceeded) \<and>
    (0 \<le> len db \<and> len db < MaxBookmarks \<longrightarrow> fst (Add b db) = Some FailedToInsert)"
proof -
  have ins: "sql_insert \<lparr>rid = i, rurl = URL b, rmetadata = Title b,
      rtags = Join (Tags b) '','', rdesc = Comment b, rflags = 0\<rparr> (conn db) = Inl ConstraintFailed" for i
    using assms by (simp add: sql_insert_def)
  have 1: "snd (Add b db) = db \<and>
    (fst (Add b db) = Some FailedToInsert \<or> fst (Add b db) = Some CapacityExceeded)"
    by (simp add: Add_def Let_def ins)
  have 2: "fst (Add b db) = Some FailedToInsert" if "0 \<le> len db \<and> len db < MaxBookmarks"
  proof -
    from that have l: "0 \<le> len db" "len db < 65535" by (simp_all add: MaxBookmarks_def)
    show ?thesis unfolding Add_unfold [OF l] using that by (simp add: ins)
  qed
  from 1 2 show ?thesis by simp
qed

theorem Add_duplicate_url_witness:
  "Add bookmark_dup abcd_db = (Some FailedToInsert, abcd_db) \<and>
   Len (snd (Add bookmark_dup abcd_db)) = 4"
proof -
  have h: "URL bookmark_dup \<in> set (map rurl (conn abcd_db))"
    by (simp add: bookmark_dup_def abcd_db_def abcd_table_def)
  have l: "0 \<le> len abcd_db \<and> len abcd_db < MaxBookmarks"
    by (simp add: abcd_len MaxBookmarks_def)
  from Add_duplicate_url [OF h] l have
    "snd (Add bookmark_dup abcd_db) = abcd_db" "fst (Add bookmark_dup abcd_db) = Some FailedToInsert"
    "Len (snd (Add bookmark_dup abcd_db)) = Len abcd_db"
    by blast+
  then show ?thesis by (simp add: prod_eq_iff Len_def abcd_len)
qed

theorem Add_duplicate_url_counterexample:
  "URL bookmark_dup \<in> set (map rurl (conn abcd_db)) \<and>
   fst (Add bookmark_dup abcd_db) = Some FailedToInsert"
proof -
  have b: "0 \<le> len abcd_db" "len abcd_db < 65535" by (simp_all add: abcd_len)
  have "fst (Add bookmark_dup abcd_db) = Some FailedToInsert"
    unfolding Add_unfold [OF b] abcd_len
    by (simp add: MaxBookmarks_def bookmark_dup_def abcd_db_def abcd_table_def sql_insert_def)
  moreover have "URL bookmark_dup \<in> set (map rurl (conn abcd_db))"
    by (simp add: bookmark_dup_def abcd_db_def abcd_table_def)
  ultimately show ?thesis by blast
qed

subsection \<open>The format of the tags column\<close>

lemma Get_1_abcd:
  "Get 2 abcd_db = Inr \<lparr>ID = 2, URL = ''b'', Title = ''B'', Tags = [''x''], Comment = []\<rparr>"
  "Get 3 abcd_db = Inr \<lparr>ID = 3, URL = ''c'', Title = ''C'', Tags = [], Comment = []\<rparr>"
  by (simp_all add: Get_def abcd_db_def abcd_table_def sql_select_id_def decodeTagsGet_def)

lemma RemoveTags_abcd:
  "RemoveTags 2 [''x''] abcd_db =
    (None, \<lparr>conn =
     [\<lparr>rid = 1, rurl = ''a'', rmetadata = ''A'', rtags = '',x,y,'', rdesc = ''p'', rflags = 0\<rparr>,
      \<lparr>rid = 2, rurl = ''b'', rmetadata = ''B'', rtags = '',,'', rdesc = [], rflags = 0\<rparr>,
      \<lparr>rid = 3, rurl = ''c'', rmetadata = ''C'', rtags = '','', rdesc = [], rflags = 0\<rparr>,
      \<lparr>rid = 4, rurl = ''d'', rmetadata = [], rtags = '','', rdesc = [], rflags = 0\<rparr>], len = 4\<rparr>)"
  unfolding RemoveTags_def Get_1_abcd
  by (simp add: updateField_def sql_update_field_def abcd_db_def abcd_table_def)

lemma AddTags_none_abcd:
  "AddTags rt 3 [] abcd_db =
    (None, \<lparr>conn =
     [\<lparr>rid = 1, rurl = ''a'', rmetadata = ''A'', rtags = '',x,y,'', rdesc = ''p'', rflags = 0\<rparr>,
      \<lparr>rid = 2, rurl = ''b'', rmetadata = ''B'', rtags = '',x,'', rdesc = [], rflags = 0\<rparr>,
      \<lparr>rid = 3, rurl = ''c'', rmetadata = ''C'', rtags = '',,'', rdesc = [], rflags = 0\<rparr>,
      \<lparr>rid = 4, rurl = ''d'', rmetadata = [], rtags = '','', rdesc = [], rflags = 0\<rparr>], len = 4\<rparr>)"
  unfolding AddTags_def Get_1_abcd
  by (simp add: updateField_def sql_update_field_def abcd_db_def abcd_table_def sortTags_def)

lemma ClearTags_abcd:
  "ClearTags 2 abcd_db =
    (None, \<lparr>conn =
     [\<lparr>rid = 1, rurl = ''a'', rmetadata = ''A'', rtags = '',x,y,'', rdesc = ''p'', rflags = 0\<rparr>,
      \<lparr>rid = 2, rurl = ''b'', rmetadata = ''B'', rtags = '','', rdesc = [], rflags = 0\<rparr>,
      \<lparr>rid = 3, rurl = ''c'', rmetadata = ''C'', rtags = '','', rdesc = [], rflags = 0\<rparr>,
      \<lparr>rid = 4, rurl = ''d'', rmetadata = [], rtags = '','', rdesc = [], rflags = 0\<rparr>], len = 4\<rparr>)"
  unfolding ClearTags_def 
  by (simp add: updateField_def sql_update_field_def abcd_db_def abcd_table_def)

lemma Add_no_tags_abcd:
  "Add (bookmark_e\<lparr>Tags := []\<rparr>) abcd_db =
     (None, \<lparr>conn = abcd_table @ [\<lparr>rid = 5, rurl = ''e'', rmetadata = ''E'', rtags = [],
                                      rdesc = [], rflags = 0\<rparr>], len = 5\<rparr>)"
proof -
  have b: "0 \<le> len abcd_db" "len abcd_db < 65535" by (simp_all add: abcd_len)
  have ins: "sql_insert \<lparr>rid = 5, rurl = ''e'', rmetadata = ''E'', rtags = [],
                          rdesc = [], rflags = 0\<rparr> abcd_table =
      Inr (abcd_table @ [\<lparr>rid = 5, rurl = ''e'', rmetadata = ''E'', rtags = [],
                           rdesc = [], rflags = 0\<rparr>])"
    by (simp add: sql_insert_def abcd_table_def)
  show ?thesis
    unfolding Add_unfold [OF b] abcd_len
    by (simp add: MaxBookmarks_def bookmark_e_def abcd_db_def ins)
qed

text \<open>
  Claim C3 says that every operation that writes the tags column writes it wrapped in
  commas, the empty set of tags as the single comma. \<open>ClearTags\<close> does, and \<open>AddTags\<close> and
  \<open>RemoveTags\<close> wrap what they write; \<open>Add\<close> does not: it writes the tags joined by
  commas with no comma before or after, and the empty set as the empty string. What
  \<open>Add\<close> wrote, the loader of \<open>GetAll\<close> reads without its first and last byte. \<open>AddTags\<close>
  and \<open>RemoveTags\<close> write an empty set as two commas.
\<close>

theorem Add_writes_unwrapped_tags:
  "map_option rtags (row_at (conn (snd (Add bookmark_e abcd_db))) 5) = Some ''new,t2'' \<and>
   decodeTagsRange ''new,t2'' = [''ew'', ''t''] \<and>
   map_option rtags (row_at (conn (snd (Add (bookmark_e\<lparr>Tags := []\<rparr>) abcd_db))) 5) = Some [] \<and>
   map_option rtags (row_at (conn (snd (RemoveTags 2 [''x''] abcd_db))) 2) = Some '',,'' \<and>
   map_option rtags (row_at (conn (snd (AddTags rt 3 [] abcd_db))) 3) = Some '',,'' \<and>
   map_option rtags (row_at (conn (snd (ClearTags 2 abcd_db))) 2) = Some '',''"
proof -
  have 1: "map_option rtags (row_at (conn (snd (Add bookmark_e abcd_db))) 5) = Some ''new,t2''"
    unfolding Add_e_abcd by (simp add: row_at_def abcd_table_def)
  have 2: "decodeTagsRange ''new,t2'' = [''ew'', ''t'']"
    by (simp add: decodeTagsRange_def)
  have 3: "map_option rtags (row_at (conn (snd (Add (bookmark_e\<lparr>Tags := []\<rparr>) abcd_db))) 5) = Some []"
    unfolding Add_no_tags_abcd by (simp add: row_at_def abcd_table_def)
  have 4: "map_option rtags (row_at (conn (snd (RemoveTags 2 [''x''] abcd_db))) 2) = Some '',,''"
    unfolding RemoveTags_abcd by (simp add: row_at_def)
  have 5: "map_option rtags (row_at (conn (snd (AddTags rt 3 [] abcd_db))) 3) = Some '',,''"
    unfolding AddTags_none_abcd by (simp add: row_at_def)
  have 6: "map_option rtags (row_at (conn (snd (ClearTags 2 abcd_db))) 2) = Some '',''"
    unfolding ClearTags_abcd by (simp add: row_at_def)
  from 1 2 3 4 5 6 show ?thesis by blast
qed

subsection \<open>Two readers of the tags column\<close>

lemma nth_upto_1: "0 \<le> k \<Longrightarrow> k < N \<Longrightarrow> [1..N] ! nat k = k + 1"
  using nth_upto [of 1 "nat k" N] by simp

lemma GetAll_abcd:
  "GetAll 3 [2, 0, 1] abcd_db = Inr
     [\<lparr>ID = 1, URL = ''a'', Title = ''A'', Tags = [''x'', ''y''], Comment = ''p''\<rparr>,
      \<lparr>ID = 2, URL = ''b'', Title = ''B'', Tags = [''x''], Comment = []\<rparr>,
      \<lparr>ID = 3, URL = ''c'', Title = ''C'', Tags = [], Comment = []\<rparr>,
      \<lparr>ID = 4, URL = ''d'', Title = [], Tags = [], Comment = []\<rparr>]"
proof -
  have h1: "distinct (map rid (conn abcd_db))" unfolding abcd_ids by simp
  have h2: "set (map rid (conn abcd_db)) = {1..len abcd_db}"
    unfolding abcd_ids abcd_len set_1_4 by simp
  have h3: "0 \<le> len abcd_db" "len abcd_db \<le> 65535" by (simp_all add: abcd_len)
  have h4: "(0::int) < 3" by simp
  have u: "[1..4::int] = [1, 2, 3, 4]" by (simp add: upto.simps)
  show ?thesis
    unfolding GetAll_closed [OF h1 h2 h3 h4 set_0_3] abcd_len u
    by (simp add: abcd_db_def abcd_table_def row_at_def scanRow_def decodeTagsRange_def)
qed

theorem Get_GetAll_tags_counterexample:
  "map_option rtags (row_at (conn abcd_db) 3) = Some '','' \<and>
   GetAll 3 [2, 0, 1] abcd_db = Inr
     [\<lparr>ID = 1, URL = ''a'', Title = ''A'', Tags = [''x'', ''y''], Comment = ''p''\<rparr>,
      \<lparr>ID = 2, URL = ''b'', Title = ''B'', Tags = [''x''], Comment = []\<rparr>,
      \<lparr>ID = 3, URL = ''c'', Title = ''C'', Tags = [], Comment = []\<rparr>,
      \<lparr>ID = 4, URL = ''d'', Title = [], Tags = [], Comment = []\<rparr>] \<and>
   Get 3 abcd_db = Inr \<lparr>ID = 3, URL = ''c'', Title = ''C'', Tags = [], Comment = []\<rparr>"
proof -
  have "map_option rtags (row_at (conn abcd_db) 3) = Some '',''"
    by (simp add: abcd_db_def abcd_table_def row_at_def)
  with GetAll_abcd Get_1_abcd(2) show ?thesis by blast
qed

text \<open>
  Claim C10, as amended. \<open>Get\<close> and \<open>GetAll\<close> read the tags column by different rules:
  \<open>Get\<close> reads the single comma as no tags and otherwise splits the column at every
  comma and drops the empty pieces; the loader of \<open>GetAll\<close> reads a column of fewer than
  two bytes as no tags and otherwise drops the first and the last byte and splits the
  rest, keeping empty pieces. For the stored value \<open>","\<close> both give no tags, and the two
  bookmarks are equal; for the stored value \<open>",,"\<close>, which \<open>AddTags\<close> and \<open>RemoveTags\<close>
  write for an empty set, \<open>Get\<close> gives no tags and the entry of \<open>GetAll\<close> has one empty
  tag. So \<open>Get(id)\<close> and the entry for \<open>id\<close> in \<open>GetAll()\<close> are not always equal.
\<close>

theorem Get_GetAll_tags:
  assumes "distinct (map rid (conn db))" "set (map rid (conn db)) = {1..len db}"
    "0 \<le> len db" "len db \<le> 65535" "0 < W" "set sched = {0..<W}"
    "1 \<le> uint bid" "uint bid \<le> len db"
  shows "\<exists>r b bs. row_at (conn db) (uint bid) = Some r \<and>
     Get bid db = Inr b \<and> GetAll W sched db = Inr bs \<and>
     Tags b = filter (\<lambda>t. t \<noteq> []) (if rtags r = '','' then [] else Split (rtags r) CHR '','') \<and>
     bs ! nat (uint bid - 1) =
       b\<lparr>Tags := (if length (rtags r) \<ge> 2 then Split (butlast (tl (rtags r))) CHR '','' else [])\<rparr> \<and>
     (rtags r = '','' \<longrightarrow> Tags b = [] \<and> bs ! nat (uint bid - 1) = b) \<and>
     (rtags r = '',,'' \<longrightarrow> Tags b = [] \<and> Tags (bs ! nat (uint bid - 1)) = [[]] \<and>
        bs ! nat (uint bid - 1) \<noteq> b)"
proof -
  define i where "i = uint bid"
  from Get_in_range [OF assms(1,2,7,8)] obtain r where
    r: "row_at (conn db) i = Some r" "rid r = i" and
    g: "Get bid db = Inr \<lparr>ID = bid, URL = rurl r, Title = rmetadata r,
                      Tags = decodeTagsGet (rtags r), Comment = rdesc r\<rparr>"
    unfolding i_def by blast
  define b where "b = \<lparr>ID = bid, URL = rurl r, Title = rmetadata r,
                      Tags = decodeTagsGet (rtags r), Comment = rdesc r\<rparr>"
  define bs where "bs = map (\<lambda>i. scanRow (the (row_at (conn db) i))) [1..len db]"
  have ga: "GetAll W sched db = Inr bs"
    unfolding bs_def by (rule GetAll_closed [OF assms(1-6)])
  have ix: "[1..len db] ! nat (i - 1) = i"
    using nth_upto_1 [of "i - 1" "len db"] assms(7,8) by (simp add: i_def)
  have ln: "nat (i - 1) < length [1..len db]" using assms(7,8) by (simp add: i_def)
  have "bs ! nat (i - 1) = scanRow (the (row_at (conn db) ([1..len db] ! nat (i - 1))))"
    unfolding bs_def using ln by (rule nth_map)
  then have el: "bs ! nat (i - 1) = b\<lparr>Tags := decodeTagsRange (rtags r)\<rparr>"
    unfolding ix r(1) by (simp add: scanRow_def b_def r(2) i_def)
  have dr: "decodeTagsRange s = (if length s \<ge> 2 then Split (butlast (tl s)) CHR '','' else [])" for s
    by (simp add: decodeTagsRange_def butlast_conv_take drop_Suc numeral_2_eq_2)
  have dg: "decodeTagsGet s = filter (\<lambda>t. t \<noteq> []) (if s = '','' then [] else Split s CHR '','')" for s
    by (simp add: decodeTagsGet_def filter_slice_eq)
  have tb: "Tags b = decodeTagsGet (rtags r)" by (simp add: b_def)
  have c1: "Tags b = [] \<and> bs ! nat (i - 1) = b" if "rtags r = '',''"
    unfolding el tb using that by (simp add: decodeTagsGet_def decodeTagsRange_def b_def)
  have c2: "Tags b = [] \<and> Tags (bs ! nat (i - 1)) = [[]] \<and> bs ! nat (i - 1) \<noteq> b" if "rtags r = '',,''"
    unfolding el tb using that by (simp add: decodeTagsGet_def decodeTagsRange_def b_def)
  have gb: "Get bid db = Inr b" using g by (simp only: b_def)
  have tb': "Tags b = filter (\<lambda>t. t \<noteq> []) (if rtags r = '','' then [] else Split (rtags r) CHR '','')"
    unfolding tb by (rule dg)
  have el': "bs ! nat (i - 1) =
       b\<lparr>Tags := (if length (rtags r) \<ge> 2 then Split (butlast (tl (rtags r))) CHR '','' else [])\<rparr>"
    unfolding el dr ..
  from r(1) gb ga tb' el' c1 c2 show ?thesis
    unfolding i_def by blast
qed

lemma untagged_conn:
  "conn untagged_db =
     [\<lparr>rid = 1, rurl = ''a'', rmetadata = ''A'', rtags = '',x,y,'', rdesc = ''p'', rflags = 0\<rparr>,
      \<lparr>rid = 2, rurl = ''b'', rmetadata = ''B'', rtags = '',,'', rdesc = [], rflags = 0\<rparr>,
      \<lparr>rid = 3, rurl = ''c'', rmetadata = ''C'', rtags = '','', rdesc = [], rflags = 0\<rparr>,
      \<lparr>rid = 4, rurl = ''d'', rmetadata = [], rtags = '','', rdesc = [], rflags = 0\<rparr>]"
  "len untagged_db = 4"
  unfolding untagged_db_def RemoveTags_abcd by simp_all

theorem Get_GetAll_tags_witness:
  "\<exists>b bs. Get 2 untagged_db = Inr b \<and> GetAll 3 [2, 0, 1] untagged_db = Inr bs \<and>
     Tags b = [] \<and> Tags (bs ! 1) = [[]] \<and> bs ! 1 \<noteq> b"
proof -
  have ids: "map rid (conn untagged_db) = [1, 2, 3, 4]" unfolding untagged_conn by simp
  have h1: "distinct (map rid (conn untagged_db))" unfolding ids by simp
  have h2: "set (map rid (conn untagged_db)) = {1..len untagged_db}"
    unfolding ids untagged_conn(2) set_1_4 by simp
  have h3: "0 \<le> len untagged_db" "len untagged_db \<le> 65535" by (simp_all add: untagged_conn(2))
  have h4: "(0::int) < 3" by simp
  have h5: "1 \<le> uint (2 :: 16 word)" "uint (2 :: 16 word) \<le> len untagged_db"
    by (simp_all add: untagged_conn(2))
  from Get_GetAll_tags [OF h1 h2 h3 h4 set_0_3 h5] obtain r b bs where
    r: "row_at (conn untagged_db) (uint (2 :: 16 word)) = Some r" and
    g: "Get 2 untagged_db = Inr b" "GetAll 3 [2, 0, 1] untagged_db = Inr bs" and
    c: "rtags r = '',,'' \<longrightarrow> Tags b = [] \<and> Tags (bs ! nat (uint (2 :: 16 word) - 1)) = [[]] \<and>
        bs ! nat (uint (2 :: 16 word) - 1) \<noteq> b"
    by blast
  from r have "rtags r = '',,''" unfolding untagged_conn by (auto simp: row_at_def)
  with c have "Tags b = [] \<and> Tags (bs ! 1) = [[]] \<and> bs ! 1 \<noteq> b" by simp
  with g show ?thesis by blast
qed

subsection \<open>Merging tags\<close>

lemma Split_nonempty: "Split s sep \<noteq> []"
  by (induction s) (auto split: list.splits)

lemma Split_no_sep: "w \<in> set (Split s sep) \<Longrightarrow> sep \<notin> set w"
proof (induction s arbitrary: w)
  case Nil
  then show ?case by simp
next
  case (Cons c cs)
  show ?case
  proof (cases "c = sep")
    case True
    with Cons show ?thesis by auto
  next
    case False
    obtain v vs where sp: "Split cs sep = v # vs"
      using Split_nonempty [of cs sep] by (cases "Split cs sep") auto
    with False Cons.prems have "w = c # v \<or> w \<in> set vs" by simp
    then show ?thesis
    proof
      assume "w = c # v"
      moreover have "sep \<notin> set v" using Cons.IH [of v] sp by simp
      ultimately show ?thesis using False by simp
    next
      assume "w \<in> set vs"
      then show ?thesis using Cons.IH [of w] sp by simp
    qed
  qed
qed

lemma decodeTagsGet_clean: "clean_tags (decodeTagsGet s)"
  unfolding clean_tags_def decodeTagsGet_def filter_slice_eq
  by (auto dest: Split_no_sep)

lemma Split_Join_sep:
  "ts \<noteq> [] \<Longrightarrow> \<forall>t\<in>set ts. sep \<notin> set t \<Longrightarrow> Split (Join ts [sep] @ [sep]) sep = ts @ [[]]"
proof (induction ts "[sep]" rule: Join.induct)
  case 1
  then show ?case by simp
next
  case (2 e)
  then show ?case using Split_append_sep [of sep e "[]"] by simp
next
  case (3 e e' es)
  then have "Split (Join (e' # es) [sep] @ [sep]) sep = (e' # es) @ [[]]" by simp
  moreover have "sep \<notin> set e" using 3 by simp
  ultimately show ?case
    using Split_append_sep [of sep e "Join (e' # es) [sep] @ [sep]"] by simp
qed

lemma decodeTagsGet_wrap:
  assumes "clean_tags T"
  shows "decodeTagsGet ('','' @ Join T '','' @ '','') = T"
proof (cases "T = []")
  case True
  then show ?thesis by (simp add: decodeTagsGet_def)
next
  case False
  have ns: "\<forall>t\<in>set T. CHR '','' \<notin> set t" using assms by (simp add: clean_tags_def)
  have sp: "Split (Join T '','' @ '','') CHR '','' = T @ [[]]"
    using Split_Join_sep [OF False ns] by simp
  have ne: "'','' @ Join T '','' @ '','' \<noteq> '',''" by simp
  have f: "filter (\<lambda>t. t \<noteq> []) T = T" using assms by (intro filter_True) (auto simp: clean_tags_def)
  show ?thesis
    unfolding decodeTagsGet_def filter_slice_eq using ne sp f by simp
qed

lemma sortTags_mset: "runtime_ok rt \<Longrightarrow> mset (sortTags rt ts) = mset ts"
  by (simp add: sortTags_def runtime_ok_def)

lemma sortTags_sorted: "runtime_ok rt \<Longrightarrow> sorted (map (ToLower rt) (sortTags rt ts))"
  by (simp add: sortTags_def runtime_ok_def)

lemma sortTags_sorted_id:
  "length ts \<le> 12 \<Longrightarrow> sorted (map (ToLower rt) ts) \<Longrightarrow> sortTags rt ts = ts"
  by (simp add: sortTags_def sort_key_id_if_sorted)

lemma ToLower_ascii_runtime: "ToLower ascii_runtime = map toLowerByte"
  by (rule ext) (simp add: ToLower_def ascii_runtime_def)

lemma ascii_runtime_ok: "runtime_ok ascii_runtime"
  unfolding runtime_ok_def ToLower_ascii_runtime by (simp add: ascii_runtime_def)

lemma Get_SomeD:
  assumes "Get bid db = Inr b"
  shows "\<not> bid < 1 \<and> uint bid \<le> len db \<and>
    (\<exists>r. find (\<lambda>r. rid r = uint bid) (conn db) = Some r \<and>
       b = \<lparr>ID = word_of_int (rid r), URL = rurl r, Title = rmetadata r,
             Tags = decodeTagsGet (rtags r), Comment = rdesc r\<rparr>)"
  using assms by (auto simp: Get_def sql_select_id_def split: if_splits option.splits)

lemma row_at_update_tags:
  "row_at (map (\<lambda>r. if rid r = i then r\<lparr>rtags := v\<rparr> else r) t) j =
     (if j = i then map_option (\<lambda>r. r\<lparr>rtags := v\<rparr>) (row_at t j) else row_at t j)"
proof -
  let ?g = "\<lambda>r. if rid r = i then r\<lparr>rtags := v\<rparr> else r"
  have "row_at (map ?g t) j = map_option ?g (find (\<lambda>r. rid (?g r) = j) t)"
    unfolding row_at_def by (rule find_map_fun)
  also have "find (\<lambda>r. rid (?g r) = j) t = find (\<lambda>r. rid r = j) t"
    by (intro find_cong) auto
  also have "map_option ?g (find (\<lambda>r. rid r = j) t) =
      (if j = i then map_option (\<lambda>r. r\<lparr>rtags := v\<rparr>) (find (\<lambda>r. rid r = j) t)
       else find (\<lambda>r. rid r = j) t)"
  proof (cases "find (\<lambda>r. rid r = j) t")
    case (Some r)
    then have "rid r = j" using find_SomeD [OF Some] by simp
    with Some show ?thesis by auto
  qed auto
  finally show ?thesis by (simp add: row_at_def)
qed

text \<open>
  Claim C4, as amended. \<open>AddTags\<close> merges by exact comparison. For a list of distinct
  arguments the call succeeds, changes no other row and not the count, and the tags it
  writes, wrapped in commas, are the tags the bookmark had together with exactly those
  arguments that are not equal, byte for byte, to one of them (so \<open>A\<close> is added beside
  \<open>a\<close>), in ascending order of their lower-case forms. When the arguments are not empty
  and hold no comma, \<open>Get\<close> then returns these tags, and a second call with the same
  arguments changes nothing if the bookmark then has at most 12 tags. (Beyond 12 tags the
  order among tags that are equal without regard to case is the library's. What the store
  does with an argument that is repeated is left open here.)
\<close>

theorem AddTags_merge:
  assumes "Get bid db = Inr b" "runtime_ok rt" "distinct tags"
  shows "\<exists>db' T. AddTags rt bid tags db = (None, db') \<and> Len db' = Len db \<and>
     row_at (conn db') (uint bid) =
       map_option (\<lambda>r. r\<lparr>rtags := '','' @ Join T '','' @ '',''\<rparr>) (row_at (conn db) (uint bid)) \<and>
     (\<forall>j. j \<noteq> uint bid \<longrightarrow> row_at (conn db') j = row_at (conn db) j) \<and>
     mset T = mset (Tags b) + mset (filter (\<lambda>t. t \<notin> set (Tags b)) tags) \<and>
     sorted (map (ToLower rt) T) \<and>
     (clean_tags tags \<longrightarrow> Get bid db' = Inr (b\<lparr>Tags := T\<rparr>)) \<and>
     (clean_tags tags \<and> length T \<le> 12 \<longrightarrow> AddTags rt bid tags db' = (None, db'))"
proof -
  define i where "i = uint bid"
  define T where "T = sortTags rt (Tags b @ filter (\<lambda>t. t \<notin> set (Tags b)) tags)"
  define v where "v = '','' @ Join T '','' @ '',''"
  define g :: "row \<Rightarrow> row" where "g = (\<lambda>r. if rid r = i then r\<lparr>rtags := v\<rparr> else r)"
  define db' where "db' = db\<lparr>conn := map g (conn db)\<rparr>"
  from Get_SomeD [OF assms(1)] obtain r where
    rng: "\<not> bid < 1" "uint bid \<le> len db" and
    r: "find (\<lambda>r. rid r = i) (conn db) = Some r" and
    b: "b = \<lparr>ID = word_of_int (rid r), URL = rurl r, Title = rmetadata r,
             Tags = decodeTagsGet (rtags r), Comment = rdesc r\<rparr>"
    unfolding i_def by blast
  have upd: "updateField bid F_tags v d = (None, d\<lparr>conn := map g (conn d)\<rparr>)"
    if "len d = len db" for d
    using rng that by (simp add: updateField_def sql_update_field_def g_def i_def)
  have veq: "CHR '','' # Join T '','' @ '','' = v" by (simp add: v_def)
  have 1: "AddTags rt bid tags db = (None, db')"
    unfolding AddTags_def assms(1) using upd [of db]
    by (simp add: Let_def filter_slice_eq T_def [symmetric] veq db'_def)
  have 2: "Len db' = Len db" by (simp add: Len_def db'_def)
  have ra: "row_at (conn db') j =
      (if j = i then map_option (\<lambda>r. r\<lparr>rtags := v\<rparr>) (row_at (conn db) j) else row_at (conn db) j)" for j
    unfolding db'_def g_def using row_at_update_tags [of i v "conn db" j] by simp
  have 3: "row_at (conn db') i = map_option (\<lambda>r. r\<lparr>rtags := v\<rparr>) (row_at (conn db) i)"
    by (simp add: ra)
  have 4: "\<forall>j. j \<noteq> i \<longrightarrow> row_at (conn db') j = row_at (conn db) j"
    by (simp add: ra)
  have 5: "mset T = mset (Tags b) + mset (filter (\<lambda>t. t \<notin> set (Tags b)) tags)"
    unfolding T_def sortTags_mset [OF assms(2)] by simp
  have 6: "sorted (map (ToLower rt) T)"
    unfolding T_def by (rule sortTags_sorted [OF assms(2)])
  have clean: "clean_tags T" if "clean_tags tags"
  proof -
    have "set T = set (Tags b) \<union> set (filter (\<lambda>t. t \<notin> set (Tags b)) tags)"
      using 5 by (metis mset_append set_append set_mset_mset)
    moreover have "clean_tags (Tags b)" unfolding b by (simp add: decodeTagsGet_clean)
    ultimately show ?thesis using that by (auto simp: clean_tags_def)
  qed
  have r': "find (\<lambda>r. rid r = i) (conn db') = Some (r\<lparr>rtags := v\<rparr>)"
    using 3 r by (simp add: row_at_def)
  have 7: "Get bid db' = Inr (b\<lparr>Tags := T\<rparr>)" if "clean_tags tags"
  proof -
    have "decodeTagsGet v = T" unfolding v_def by (rule decodeTagsGet_wrap [OF clean [OF that]])
    then show ?thesis
      using rng r' by (simp add: Get_def sql_select_id_def i_def [symmetric] db'_def b)
  qed
  have 8: "AddTags rt bid tags db' = (None, db')" if "clean_tags tags \<and> length T \<le> 12"
  proof -
    have g7: "Get bid db' = Inr (b\<lparr>Tags := T\<rparr>)" using that by (intro 7) simp
    have sub: "set tags \<subseteq> set T"
    proof
      fix t assume "t \<in> set tags"
      then have "t \<in> set (Tags b) \<union> set (filter (\<lambda>t. t \<notin> set (Tags b)) tags)" by auto
      also have "\<dots> = set T" using 5 by (metis mset_append set_append set_mset_mset)
      finally show "t \<in> set T" .
    qed
    then have f: "filter (\<lambda>t. t \<notin> set T) tags = []" by (auto simp: filter_empty_conv)
    have st: "sortTags rt T = T" using that 6 by (intro sortTags_sorted_id) auto
    have gg: "g \<circ> g = g" by (auto simp: g_def fun_eq_iff)
    show ?thesis
      unfolding AddTags_def g7 using upd [of db']
      by (simp add: Let_def filter_slice_eq f st veq db'_def gg)
  qed
  from 1 2 3 4 5 6 7 8 show ?thesis unfolding i_def v_def by blast
qed

text \<open>
  On at most 12 tags of ASCII bytes the sort of \<open>AddTags\<close> does not consult the runtime:
  what the scenarios below show of \<open>ascii_runtime\<close> holds of every runtime.
\<close>

lemma insort_key_agree:
  "f x = g x \<Longrightarrow> \<forall>y\<in>set ys. f y = g y \<Longrightarrow> insort_key f x ys = insort_key g x ys"
  by (induction ys) auto

lemma sort_key_agree: "\<forall>x\<in>set xs. f x = g x \<Longrightarrow> sort_key f xs = sort_key g xs"
proof (induction xs)
  case Nil
  then show ?case by simp
next
  case (Cons x xs)
  then have "sort_key f xs = sort_key g xs" by simp
  moreover have "insort_key f x (sort_key g xs) = insort_key g x (sort_key g xs)"
    using Cons.prems by (intro insort_key_agree) auto
  ultimately show ?case by simp
qed

lemma sortTags_ascii:
  assumes "length ts \<le> 12" "\<forall>t\<in>set ts. \<forall>c\<in>set t. (of_char c :: nat) < 128"
  shows "sortTags rt ts = sortTags ascii_runtime ts"
proof -
  have "ToLower rt t = ToLower ascii_runtime t" if "t \<in> set ts" for t
    using that assms(2) by (simp add: ToLower_def)
  then have "sort_key (ToLower rt) ts = sort_key (ToLower ascii_runtime) ts"
    by (intro sort_key_agree) auto
  with assms(1) show ?thesis by (simp add: sortTags_def)
qed

lemma AddTags_aaA_any_runtime:
  "AddTags rt 3 [''a'', ''a'', ''A''] abcd_db = AddTags ascii_runtime 3 [''a'', ''a'', ''A''] abcd_db"
proof -
  have "sortTags rt [''a'', ''a'', ''A''] = sortTags ascii_runtime [''a'', ''a'', ''A'']"
    by (rule sortTags_ascii) simp_all
  then show ?thesis
    unfolding AddTags_def Get_1_abcd by simp
qed

lemma sortTags_scenarios:
  "sortTags ascii_runtime [''a'', ''a'', ''A''] = [''a'', ''a'', ''A'']"
  "sortTags ascii_runtime [''x'', ''X'', ''a''] = [''a'', ''x'', ''X'']"
  by code_simp+

lemma AddTags_aaA_abcd:
  "AddTags ascii_runtime 3 [''a'', ''a'', ''A''] abcd_db =
    (None, \<lparr>conn =
     [\<lparr>rid = 1, rurl = ''a'', rmetadata = ''A'', rtags = '',x,y,'', rdesc = ''p'', rflags = 0\<rparr>,
      \<lparr>rid = 2, rurl = ''b'', rmetadata = ''B'', rtags = '',x,'', rdesc = [], rflags = 0\<rparr>,
      \<lparr>rid = 3, rurl = ''c'', rmetadata = ''C'', rtags = '',a,a,A,'', rdesc = [], rflags = 0\<rparr>,
      \<lparr>rid = 4, rurl = ''d'', rmetadata = [], rtags = '','', rdesc = [], rflags = 0\<rparr>], len = 4\<rparr>)"
  unfolding AddTags_def Get_1_abcd
  by (simp add: updateField_def sql_update_field_def abcd_db_def abcd_table_def sortTags_scenarios)

theorem AddTags_dedup_counterexample:
  "Get 3 abcd_db = Inr \<lparr>ID = 3, URL = ''c'', Title = ''C'', Tags = [], Comment = []\<rparr> \<and>
   fst (AddTags ascii_runtime 3 [''a'', ''a'', ''A''] abcd_db) = None \<and>
   Get 3 (snd (AddTags ascii_runtime 3 [''a'', ''a'', ''A''] abcd_db)) =
     Inr \<lparr>ID = 3, URL = ''c'', Title = ''C'', Tags = [''a'', ''a'', ''A''], Comment = []\<rparr>"
proof -
  have "Get 3 (snd (AddTags ascii_runtime 3 [''a'', ''a'', ''A''] abcd_db)) =
     Inr \<lparr>ID = 3, URL = ''c'', Title = ''C'', Tags = [''a'', ''a'', ''A''], Comment = []\<rparr>"
    unfolding AddTags_aaA_abcd by (simp add: Get_def sql_select_id_def decodeTagsGet_def)
  moreover have "fst (AddTags ascii_runtime 3 [''a'', ''a'', ''A''] abcd_db) = None"
    unfolding AddTags_aaA_abcd by simp
  ultimately show ?thesis using Get_1_abcd(2) by blast
qed

lemma AddTags_Xa_abcd:
  "AddTags ascii_runtime 2 [''X'', ''a''] abcd_db =
    (None, \<lparr>conn =
     [\<lparr>rid = 1, rurl = ''a'', rmetadata = ''A'', rtags = '',x,y,'', rdesc = ''p'', rflags = 0\<rparr>,
      \<lparr>rid = 2, rurl = ''b'', rmetadata = ''B'', rtags = '',a,x,X,'', rdesc = [], rflags = 0\<rparr>,
      \<lparr>rid = 3, rurl = ''c'', rmetadata = ''C'', rtags = '','', rdesc = [], rflags = 0\<rparr>,
      \<lparr>rid = 4, rurl = ''d'', rmetadata = [], rtags = '','', rdesc = [], rflags = 0\<rparr>], len = 4\<rparr>)"
  unfolding AddTags_def Get_1_abcd
  by (simp add: updateField_def sql_update_field_def abcd_db_def abcd_table_def sortTags_scenarios)

theorem AddTags_merge_witness:
  "runtime_ok ascii_runtime \<and> distinct [''X'', ''a''] \<and>
   (\<exists>db'. AddTags ascii_runtime 2 [''X'', ''a''] abcd_db = (None, db') \<and>
      Get 2 db' = Inr \<lparr>ID = 2, URL = ''b'', Title = ''B'', Tags = [''a'', ''x'', ''X''], Comment = []\<rparr> \<and>
      AddTags ascii_runtime 2 [''X'', ''a''] db' = (None, db'))"
proof -
  have d: "distinct [''X'', ''a'']" by simp
  have c: "clean_tags [''X'', ''a'']" by (simp add: clean_tags_def)
  from AddTags_merge [OF Get_1_abcd(1) ascii_runtime_ok d] obtain db' T where
    1: "AddTags ascii_runtime 2 [''X'', ''a''] abcd_db = (None, db')" and
    m: "mset T = mset (Tags \<lparr>ID = 2 :: 16 word, URL = ''b'', Title = ''B'', Tags = [''x''], Comment = []\<rparr>) +
          mset (filter (\<lambda>t. t \<notin> set (Tags \<lparr>ID = 2 :: 16 word, URL = ''b'', Title = ''B'', Tags = [''x''], Comment = []\<rparr>)) [''X'', ''a''])" and
    i: "clean_tags [''X'', ''a''] \<and> length T \<le> 12 \<longrightarrow>
          AddTags ascii_runtime 2 [''X'', ''a''] db' = (None, db')"
    by blast
  have "size (mset T) = 3" unfolding m by simp
  then have "length T \<le> 12" by simp
  with i c have 2: "AddTags ascii_runtime 2 [''X'', ''a''] db' = (None, db')" by blast
  have 3: "Get 2 db' = Inr \<lparr>ID = 2, URL = ''b'', Title = ''B'', Tags = [''a'', ''x'', ''X''], Comment = []\<rparr>"
    using 1 unfolding AddTags_Xa_abcd
    by (auto simp: Get_def sql_select_id_def decodeTagsGet_def)
  from 1 2 3 ascii_runtime_ok d show ?thesis by blast
qed

end
